theory Spec2Isabelle
  imports Complex_Main
begin

section \<open>JavaScript values used by the extractor\<close>

text \<open>
  A JavaScript number is modelled as an exact real with one extra value for \<open>NaN\<close>
  (\<open>None\<close>). Arithmetic is exact: rounding and the infinities of IEEE doubles are
  outside the model. An array read out of range gives \<open>undefined\<close>, which behaves
  as \<open>NaN\<close> in arithmetic; it is modelled by the same value, also where the source
  stores it without arithmetic.
\<close>

type_synonym jsnum = "real option"

definition jlift2 :: "(real \<Rightarrow> real \<Rightarrow> real) \<Rightarrow> jsnum \<Rightarrow> jsnum \<Rightarrow> jsnum" where
  "jlift2 f a b = (case a of None \<Rightarrow> None | Some x \<Rightarrow> (case b of None \<Rightarrow> None | Some y \<Rightarrow> Some (f x y)))"

definition jmul :: "jsnum \<Rightarrow> jsnum \<Rightarrow> jsnum" where
  "jmul = jlift2 (\<lambda>x y. x * y)"

definition jsub :: "jsnum \<Rightarrow> jsnum \<Rightarrow> jsnum" where
  "jsub = jlift2 (\<lambda>x y. x - y)"

definition jabs :: "jsnum \<Rightarrow> jsnum" where
  "jabs a = map_option abs a"

definition jnth :: "jsnum list \<Rightarrow> nat \<Rightarrow> jsnum" where
  "jnth xs i = (if i < length xs then xs ! i else None)"

text \<open>
  \<open>String.prototype.split\<close> with a string separator. A non-empty separator cuts
  the string at every occurrence, scanning from the left; the empty separator cuts it
  into its single characters.
\<close>

function split_from :: "string \<Rightarrow> string \<Rightarrow> string \<Rightarrow> string list" where
  "split_from sep acc [] = [acc]"
| "split_from sep acc (c # cs) =
     (if sep \<noteq> [] \<and> take (length sep) (c # cs) = sep
      then acc # split_from sep [] (drop (length sep) (c # cs))
      else split_from sep (acc @ [c]) cs)"
  by pat_completeness auto
termination
  by (relation "measure (\<lambda>(sep, acc, s). length s)") auto

definition js_split :: "string \<Rightarrow> string \<Rightarrow> string list" where
  "js_split s sep = (if sep = [] then map (\<lambda>c. [c]) s else split_from sep [] s)"

text \<open>
  A sample of \<open>parseFloat\<close> on unsigned decimal literals (\<open>digits\<close> or
  \<open>digits.digits\<close>); anything else is \<open>NaN\<close>. The functions below take
  \<open>parseFloat\<close> as a parameter, and this sample instantiates it at concrete inputs.
\<close>

definition isDigit :: "char \<Rightarrow> bool" where
  "isDigit c = ((48::nat) \<le> of_char c \<and> of_char c \<le> (57::nat))"

definition digitsValue :: "string \<Rightarrow> nat" where
  "digitsValue ds = foldl (\<lambda>acc c. 10 * acc + (of_char c - 48)) 0 ds"

definition parseDecimal :: "string \<Rightarrow> jsnum" where
  "parseDecimal s =
     (let ip = takeWhile isDigit s; rest = dropWhile isDigit s
      in if ip = [] then None
         else (case rest of
                 [] \<Rightarrow> Some (real (digitsValue ip))
               | c # fp \<Rightarrow>
                   if c = CHR ''.''
                   then (let fd = takeWhile isDigit fp
                         in Some (real (digitsValue ip) + real (digitsValue fd) / 10 ^ length fd))
                   else Some (real (digitsValue ip))))"

section \<open>Document representation\<close>

record 'n BoundingBox =
  left :: 'n
  top_b :: 'n
  width :: 'n
  height :: 'n

record Font =
  name :: string
  size_f :: jsnum
  weight :: string
  isItalic :: bool
  isUnderline :: bool
  color :: string

record Character =
  box_c :: "jsnum BoundingBox"
  content_c :: string
  font_c :: Font

section \<open>PdfminerExtractor: bounding boxes\<close>

text \<open>
  \<open>getBoundingBox\<close>: pdfminer's boxes are \<open>x0, y0, x1, y1\<close> with the origin at the
  bottom left; the result is \<open>left, top, width, height\<close> with the origin at the top.
\<close>

definition getBoundingBox ::
  "(string \<Rightarrow> jsnum) \<Rightarrow> string \<Rightarrow> string \<Rightarrow> jsnum \<Rightarrow> jsnum \<Rightarrow> jsnum BoundingBox" where
  "getBoundingBox parseFloat bbox splitter pageHeight scalingFactor =
     (let values = map (\<lambda>v. jmul (parseFloat v) scalingFactor) (js_split bbox splitter);
          width = jabs (jsub (jnth values 2) (jnth values 0));
          height = jabs (jsub (jnth values 1) (jnth values 3));
          left = jnth values 0;
          top = jsub (jabs (jsub pageHeight (jnth values 1))) height
      in \<lparr>left = left, top_b = top, width = width, height = height\<rparr>)"

section \<open>PdfminerExtractor: the most common font\<close>

text \<open>
  \<open>Font.isEqual\<close> and \<open>Font.undefinedFont\<close> belong to the \<open>Font\<close> class, which
  is declared elsewhere; they are parameters here. The \<open>forEach\<close> over the baskets
  pushes the font to every basket whose first font is equal to it, and a new basket is
  opened when none was found.
\<close>

definition addToBaskets :: "(Font \<Rightarrow> Font \<Rightarrow> bool) \<Rightarrow> Font list list \<Rightarrow> Font \<Rightarrow> Font list list" where
  "addToBaskets isEqual baskets font =
     (let basketFound = (\<exists>basket \<in> set baskets. length basket > 0 \<and> isEqual (basket ! 0) font);
          baskets' = map (\<lambda>basket. if length basket > 0 \<and> isEqual (basket ! 0) font
                                     then basket @ [font] else basket) baskets
      in if \<not> basketFound then baskets' @ [[font]] else baskets')"

text \<open>
  \<open>baskets.sort((a, b) => b.length - a.length)\<close> is a stable sort by descending
  length.
\<close>

definition getMostCommonFont :: "(Font \<Rightarrow> Font \<Rightarrow> bool) \<Rightarrow> Font \<Rightarrow> Font list \<Rightarrow> Font" where
  "getMostCommonFont isEqual undefinedFont theFonts =
     (let fonts = foldl (\<lambda>a b. a @ [b]) [] theFonts;
          baskets = foldl (addToBaskets isEqual) [] fonts;
          sorted = sort_key (\<lambda>basket. - int (length basket)) baskets
      in if length sorted > 0 \<and> length (sorted ! 0) > 0 then sorted ! 0 ! 0 else undefinedFont)"

section \<open>PdfminerExtractor: breaking a line into words\<close>

text \<open>
  The attributes of a pdfminer text record, as its type declares them: the font name, the
  box, the size and the colour, each a string.
\<close>

record PdfminerTextAttr =
  a_font :: string
  a_bbox :: string
  a_size :: string
  a_ncolour :: string

text \<open>
  A pdfminer text record: \<open>tval\<close> is the field \<open>_\<close> (the character) and \<open>tattr\<close> the
  field \<open>_attr\<close>; each of them may be \<open>undefined\<close>.
\<close>

record PdfminerText =
  tval :: "string option"
  tattr :: "PdfminerTextAttr option"

record Word =
  box_w :: "jsnum BoundingBox"
  content_w :: "Character list"
  font_w :: Font

text \<open>
  The exceptions that can end \<open>breakLineIntoWords\<close>: the \<open>TypeError\<close> of reading
  a field of \<open>undefined\<close>, and the error \<open>BoundingBox.merge\<close> reports.
\<close>

datatype error = TypeError | MergeError

text \<open>
  The regular expressions of the source only ask whether a fixed ASCII word occurs in a
  string, with or without regard to case.
\<close>

definition toLowerAscii :: "char \<Rightarrow> char" where
  "toLowerAscii c = (let n = (of_char c :: nat) in if 65 \<le> n \<and> n \<le> 90 then char_of (n + 32) else c)"

fun occursIn :: "(char \<Rightarrow> char) \<Rightarrow> string \<Rightarrow> string \<Rightarrow> bool" where
  "occursIn f pat [] = (pat = [])"
| "occursIn f pat (c # cs) = (map f (take (length pat) (c # cs)) = pat \<or> occursIn f pat cs)"

definition getValidCharacter :: "string \<Rightarrow> string" where
  "getValidCharacter character = (if occursIn (\<lambda>c. c) ''(cid:'' character then ''?'' else character)"

definition thereAreFakeSpaces :: "PdfminerText list \<Rightarrow> bool" where
  "thereAreFakeSpaces texts =
     (let indexed = zip texts [0..<length texts];
          emptyWithAttr = map snd (filter (\<lambda>word. tval (fst word) = None \<and> tattr (fst word) \<noteq> None) indexed);
          emptyWithNoAttr = map snd (filter (\<lambda>word. tval (fst word) = None \<and> tattr (fst word) = None) indexed)
      in foldl (\<lambda>fakeSpaces pos. if pos + 1 \<in> set emptyWithAttr then True else fakeSpaces)
           False emptyWithNoAttr)"

definition isFakeChar :: "PdfminerText \<Rightarrow> bool \<Rightarrow> bool" where
  "isFakeChar word fakeSpacesInLine =
     (if fakeSpacesInLine \<and> tval word = None \<and> tattr word = None then True else False)"

text \<open>The zero width space U+200B, as the bytes of its UTF-8 encoding.\<close>

definition notAllowedChars :: "string list" where
  "notAllowedChars = [[char_of (226::nat), char_of (128::nat), char_of (139::nat)]]"

text \<open>
  The body of the \<open>map\<close> over the text records. Reading \<open>char._attr.font\<close> when
  \<open>_attr\<close> is \<open>undefined\<close> throws a \<open>TypeError\<close>. \<open>ncolourToHex\<close> only computes the
  colour string of the font and is a parameter.
\<close>

definition toCharacter ::
  "(string \<Rightarrow> jsnum) \<Rightarrow> (string \<Rightarrow> string) \<Rightarrow> jsnum \<Rightarrow> jsnum \<Rightarrow> PdfminerText
     \<Rightarrow> error + Character option" where
  "toCharacter parseFloat ncolourToHex pageHeight scalingFactor char =
     (case tval char of
        None \<Rightarrow> Inr None
      | Some t \<Rightarrow>
          (case tattr char of
             None \<Rightarrow> Inl TypeError
           | Some a \<Rightarrow>
               Inr (Some \<lparr>box_c = getBoundingBox parseFloat (a_bbox a) '','' pageHeight scalingFactor,
                          content_c = getValidCharacter t,
                          font_c = \<lparr>name = a_font a,
                                   size_f = parseFloat (a_size a),
                                   weight = (if occursIn toLowerAscii ''bold'' (a_font a) then ''bold'' else ''medium''),
                                   isItalic = (if occursIn toLowerAscii ''italic'' (a_font a) then True else False),
                                   isUnderline = (if occursIn toLowerAscii ''underline'' (a_font a) then True else False),
                                   color = ncolourToHex (a_ncolour a)\<rparr>\<rparr>)))"

fun mapE :: "('a \<Rightarrow> error + 'b) \<Rightarrow> 'a list \<Rightarrow> error + 'b list" where
  "mapE f [] = Inr []"
| "mapE f (x # xs) =
     (case f x of
        Inl e \<Rightarrow> Inl e
      | Inr y \<Rightarrow> (case mapE f xs of Inl e \<Rightarrow> Inl e | Inr ys \<Rightarrow> Inr (y # ys)))"

definition definedChars :: "Character option list \<Rightarrow> Character list" where
  "definedChars cs = map the (filter (\<lambda>c. c \<noteq> None) cs)"

text \<open>\<open>chars.slice(from, to)\<close> for indices inside the array.\<close>

definition slice :: "'a list \<Rightarrow> nat \<Rightarrow> nat \<Rightarrow> 'a list" where
  "slice xs from to = take (to - from) (drop from xs)"

text \<open>
  The expression \<open>new Word(BoundingBox.merge(...), charSelection, getMostCommonFont(...))\<close>,
  which the source writes three times. \<open>BoundingBox.merge\<close> belongs to a class that is
  declared elsewhere; it is a parameter, a function that returns a box or reports an error.
\<close>

definition newWord ::
  "(jsnum BoundingBox list \<Rightarrow> error + jsnum BoundingBox) \<Rightarrow> (Font \<Rightarrow> Font \<Rightarrow> bool) \<Rightarrow> Font
     \<Rightarrow> Character list \<Rightarrow> error + Word" where
  "newWord merge isEqual undefinedFont charSelection =
     (case merge (map box_c charSelection) of
        Inl e \<Rightarrow> Inl e
      | Inr b \<Rightarrow> Inr \<lparr>box_w = b, content_w = charSelection,
                      font_w = getMostCommonFont isEqual undefinedFont (map font_c charSelection)\<rparr>)"

text \<open>The \<open>for\<close> loop over the separator locations; \<open>is\<close> holds the values of \<open>i\<close> still to run.\<close>

fun wordsBetween ::
  "(jsnum BoundingBox list \<Rightarrow> error + jsnum BoundingBox) \<Rightarrow> (Font \<Rightarrow> Font \<Rightarrow> bool) \<Rightarrow> Font
     \<Rightarrow> Character option list \<Rightarrow> nat list \<Rightarrow> nat list \<Rightarrow> Word list \<Rightarrow> error + Word list" where
  "wordsBetween merge isEqual undefinedFont chars sepLocs [] words = Inr words"
| "wordsBetween merge isEqual undefinedFont chars sepLocs (i # is) words =
     (let from = sepLocs ! i + 1;
          to = (if i \<noteq> length sepLocs - 1 then sepLocs ! (i + 1) else length chars);
          charSelection = definedChars (slice chars from to)
      in if length charSelection > 0
         then (case newWord merge isEqual undefinedFont charSelection of
                 Inl e \<Rightarrow> Inl e
               | Inr w \<Rightarrow> wordsBetween merge isEqual undefinedFont chars sepLocs is (words @ [w]))
         else wordsBetween merge isEqual undefinedFont chars sepLocs is words)"

definition isSeparatorAt :: "Character option \<Rightarrow> string \<Rightarrow> bool" where
  "isSeparatorAt c wordSeparator = (case c of None \<Rightarrow> True | Some ch \<Rightarrow> content_c ch = wordSeparator)"

definition breakLineIntoWords ::
  "(string \<Rightarrow> jsnum) \<Rightarrow> (string \<Rightarrow> string) \<Rightarrow> (Font \<Rightarrow> Font \<Rightarrow> bool) \<Rightarrow> Font
     \<Rightarrow> (jsnum BoundingBox list \<Rightarrow> error + jsnum BoundingBox)
     \<Rightarrow> PdfminerText list \<Rightarrow> string \<Rightarrow> jsnum \<Rightarrow> jsnum \<Rightarrow> error + Word list" where
  "breakLineIntoWords parseFloat ncolourToHex isEqual undefinedFont merge texts wordSeparator pageHeight scalingFactor =
     (let words = [];
          fakeSpaces = thereAreFakeSpaces texts
      in case mapE (toCharacter parseFloat ncolourToHex pageHeight scalingFactor)
                (filter (\<lambda>char. \<not> (case tval char of None \<Rightarrow> False | Some t \<Rightarrow> t \<in> set notAllowedChars)
                                 \<and> \<not> isFakeChar char fakeSpaces) texts) of
           Inl e \<Rightarrow> Inl e
         | Inr chars0 \<Rightarrow>
            (let chars1 = (case chars0 of
                             [] \<Rightarrow> []
                           | c # cs \<Rightarrow> if isSeparatorAt c wordSeparator then cs else chars0);
                 chars = (if chars1 = [] then []
                          else if isSeparatorAt (last chars1) wordSeparator
                               then take (length chars1 - 1) chars1 else chars1)
             in if length chars = 0 \<or> (length chars = 1 \<and> chars ! 0 = None) then Inr words
                else
                  (let sepLocs = filter (\<lambda>l. l \<noteq> length chars)
                                   (filter (\<lambda>l. l \<noteq> 0)
                                      (map the (filter (\<lambda>l. l \<noteq> None)
                                         (map (\<lambda>(c, i). if c = None then Some i else None)
                                            (zip chars [0..<length chars])))))
                   in if length sepLocs = 0
                      then (case newWord merge isEqual undefinedFont (definedChars chars) of
                              Inl e \<Rightarrow> Inl e
                            | Inr w \<Rightarrow> Inr (words @ [w]))
                      else
                        (let charSelection = definedChars (slice chars 0 (sepLocs ! 0))
                         in if length charSelection > 0
                            then (case newWord merge isEqual undefinedFont charSelection of
                                    Inl e \<Rightarrow> Inl e
                                  | Inr w \<Rightarrow> wordsBetween merge isEqual undefinedFont chars sepLocs
                                               [0..<length sepLocs] (words @ [w]))
                            else wordsBetween merge isEqual undefinedFont chars sepLocs
                                   [0..<length sepLocs] words))))"

text \<open>
  The two halves of \<open>breakLineIntoWords\<close>, named for the proofs: the removal of a
  leading and a trailing separator, and the cutting of the remaining characters into words.
\<close>

definition trimSeparators :: "Character option list \<Rightarrow> string \<Rightarrow> Character option list" where
  "trimSeparators chars0 wordSeparator =
     (let chars1 = (case chars0 of
                      [] \<Rightarrow> []
                    | c # cs \<Rightarrow> if isSeparatorAt c wordSeparator then cs else chars0)
      in if chars1 = [] then []
         else if isSeparatorAt (last chars1) wordSeparator
              then take (length chars1 - 1) chars1 else chars1)"

definition wordsOfChars ::
  "(jsnum BoundingBox list \<Rightarrow> error + jsnum BoundingBox) \<Rightarrow> (Font \<Rightarrow> Font \<Rightarrow> bool) \<Rightarrow> Font
     \<Rightarrow> Character option list \<Rightarrow> error + Word list" where
  "wordsOfChars merge isEqual undefinedFont chars =
     (if length chars = 0 \<or> (length chars = 1 \<and> chars ! 0 = None) then Inr []
      else
        (let sepLocs = filter (\<lambda>l. l \<noteq> length chars)
                         (filter (\<lambda>l. l \<noteq> 0)
                            (map the (filter (\<lambda>l. l \<noteq> None)
                               (map (\<lambda>(c, i). if c = None then Some i else None)
                                  (zip chars [0..<length chars])))))
         in if length sepLocs = 0
            then (case newWord merge isEqual undefinedFont (definedChars chars) of
                    Inl e \<Rightarrow> Inl e
                  | Inr w \<Rightarrow> Inr ([] @ [w]))
            else
              (let charSelection = definedChars (slice chars 0 (sepLocs ! 0))
               in if length charSelection > 0
                  then (case newWord merge isEqual undefinedFont charSelection of
                          Inl e \<Rightarrow> Inl e
                        | Inr w \<Rightarrow> wordsBetween merge isEqual undefinedFont chars sepLocs
                                     [0..<length sepLocs] ([] @ [w]))
                  else wordsBetween merge isEqual undefinedFont chars sepLocs
                         [0..<length sepLocs] [])))"

text \<open>
  Two functions for \<open>BoundingBox.merge\<close> that differ only on the empty list: the first
  reports an error there, the second returns a box. On a non-empty list both return the
  first box.
\<close>

definition firstBoxOrError :: "jsnum BoundingBox list \<Rightarrow> error + jsnum BoundingBox" where
  "firstBoxOrError boxes = (case boxes of [] \<Rightarrow> Inl MergeError | b # bs \<Rightarrow> Inr b)"

definition firstBoxOrZero :: "jsnum BoundingBox list \<Rightarrow> error + jsnum BoundingBox" where
  "firstBoxOrZero boxes =
     (case boxes of
        [] \<Rightarrow> Inr \<lparr>left = Some 0, top_b = Some 0, width = Some 0, height = Some 0\<rparr>
      | b # bs \<Rightarrow> Inr b)"

section \<open>PdfminerExtractor: extraction in batches of pages\<close>

datatype Element = WordElement Word | ImageElement "jsnum BoundingBox" string

record Page =
  pageNumber :: jsnum
  elements :: "Element list"
  box_p :: "jsnum BoundingBox"

record Document =
  pages :: "Page list"
  inputFile_d :: "string option"

text \<open>
  \<open>totalPages\<close> is \<open>null\<close> when the page count could not be read, and otherwise the
  result of \<open>parseInt\<close>: an integer or \<open>NaN\<close>.
\<close>

datatype totalPagesValue = Null | NaN | Num int

text \<open>The decimal text of an integer, and \<open>Array.prototype.join\<close>.\<close>

function showNat :: "nat \<Rightarrow> string" where
  "showNat n = (if n < 10 then [''0123456789'' ! n]
                else showNat (n div 10) @ [''0123456789'' ! (n mod 10)])"
  by pat_completeness auto
termination
  by (relation "measure (\<lambda>n. n)") auto

definition showInt :: "int \<Rightarrow> string" where
  "showInt i = (if i < 0 then CHR ''-'' # showNat (nat (- i)) else showNat (nat i))"

fun join :: "string list \<Rightarrow> string \<Rightarrow> string" where
  "join [] sep = []"
| "join [x] sep = x"
| "join (x # y # ys) sep = x @ sep @ join (y # ys) sep"

text \<open>
  \<open>pagesToExtract\<close>: the page numbers of batch \<open>pageIndex\<close>, at most \<open>maxPages\<close> of
  them, none beyond \<open>totalPages\<close>, joined by commas. A comparison with \<open>null\<close> reads
  it as 0, and a comparison with \<open>NaN\<close> is false.
\<close>

definition pagesToExtract :: "int \<Rightarrow> nat \<Rightarrow> totalPagesValue \<Rightarrow> string" where
  "pagesToExtract pageIndex maxPages totalPages =
     (let fromPage = (pageIndex - 1) * int maxPages
      in join (map showInt
                (filter (\<lambda>el. case totalPages of Null \<Rightarrow> el \<le> 0 | NaN \<Rightarrow> False | Num n \<Rightarrow> el \<le> n)
                   (map (\<lambda>el. int el + fromPage + 1) [0..<maxPages]))) '','')"

text \<open>
  \<open>extractFile\<close>. The three functions of the \<open>pdfminer\<close> module it chains
  (\<open>extractPages\<close>, \<open>xmlParser\<close>, \<open>jsParser\<close>) are parameters; each of them resolves
  (\<open>Inr\<close>) or rejects (\<open>Inl\<close>), and a rejection is the result of \<open>extractFile\<close>.
  The outer \<open>option\<close> is \<open>None\<close> when the recursion never ends. Pages are values:
  the parser returns a fresh page object for every page.
\<close>

partial_function (option) extractFile ::
  "(string \<Rightarrow> string option \<Rightarrow> string + string) \<Rightarrow> (string \<Rightarrow> string + 'j) \<Rightarrow> ('j \<Rightarrow> string + Document)
     \<Rightarrow> string \<Rightarrow> int \<Rightarrow> nat \<Rightarrow> totalPagesValue \<Rightarrow> Document \<Rightarrow> (string + Document) option" where
  "extractFile extractPages xmlParser jsParser inputFile pageIndex maxPages totalPages document =
     (let toPage = pageIndex * int maxPages - 1;
          extractPages' = pagesToExtract pageIndex maxPages totalPages
      in case extractPages inputFile (if totalPages \<noteq> Null then Some extractPages' else None) of
           Inl e \<Rightarrow> Some (Inl e)
         | Inr xmlOutputFile \<Rightarrow>
            (case xmlParser xmlOutputFile of
               Inl e \<Rightarrow> Some (Inl e)
             | Inr json \<Rightarrow>
                (case jsParser json of
                   Inl e \<Rightarrow> Some (Inl e)
                 | Inr doc \<Rightarrow>
                    (let document1 = document\<lparr>pages := pages document @ pages doc\<rparr>;
                         document2 = document1\<lparr>pages :=
                            map (\<lambda>(page, index). page\<lparr>pageNumber := Some (real index + 1)\<rparr>)
                              (zip (pages document1) [0..<length (pages document1)])\<rparr>
                     in if (case totalPages of Null \<Rightarrow> False | NaN \<Rightarrow> False | Num n \<Rightarrow> n > toPage + 1)
                        then extractFile extractPages xmlParser jsParser inputFile (pageIndex + 1) maxPages
                               totalPages document2
                        else Some (Inr document2)))))"



text \<open>The pages of a document carry the numbers 1, 2, 3, ... in document order.\<close>

definition consecutive :: "Document \<Rightarrow> bool" where
  "consecutive d = (\<forall>k < length (pages d). pageNumber (pages d ! k) = Some (real (k + 1)))"

text \<open>The relation passed for \<open>Font.isEqual\<close> is an equivalence relation.\<close>

definition isEquivalence :: "('a \<Rightarrow> 'a \<Rightarrow> bool) \<Rightarrow> bool" where
  "isEquivalence r = ((\<forall>x. r x x) \<and> (\<forall>x y. r x y \<longrightarrow> r y x) \<and> (\<forall>x y z. r x y \<and> r y z \<longrightarrow> r x z))"

text \<open>
  Three fonts and an equality that compares name and size, as an instance of
  \<open>Font.isEqual\<close>: the second and the third font differ in colour only.
\<close>

definition sameNameAndSize :: "Font \<Rightarrow> Font \<Rightarrow> bool" where
  "sameNameAndSize a b = (name a = name b \<and> size_f a = size_f b)"

definition arial12 :: Font where
  "arial12 = \<lparr>name = ''Arial'', size_f = Some 12, weight = ''medium'', isItalic = False,
              isUnderline = False, color = ''#000000''\<rparr>"

definition times10 :: Font where
  "times10 = \<lparr>name = ''Times'', size_f = Some 10, weight = ''bold'', isItalic = False,
              isUnderline = False, color = ''#000000''\<rparr>"

definition times10red :: Font where
  "times10red = \<lparr>name = ''Times'', size_f = Some 10, weight = ''bold'', isItalic = False,
                 isUnderline = False, color = ''#ff0000''\<rparr>"

section \<open>extractImagesAndFonts\<close>

text \<open>
  The promise returned by \<open>extractImagesAndFonts\<close>. Its executor runs synchronously;
  the first call of \<open>resolve\<close> or \<open>reject\<close> settles the promise and later calls
  change nothing; an exception thrown in the executor rejects the promise, unless it is
  settled already.
\<close>

datatype reason = StderrText string | TypeErrorThrown | FsErrorThrown

datatype promise = Pending | Resolved string | Rejected reason

definition settle :: "promise \<Rightarrow> promise \<Rightarrow> promise" where
  "settle p v = (case p of Pending \<Rightarrow> v | _ \<Rightarrow> p)"

text \<open>
  What \<open>spawnSync\<close> returns: the exit status (\<open>null\<close> when the process could not be
  started or was killed by a signal) and the standard error (\<open>null\<close> when the process
  could not be started).
\<close>

record SpawnSyncReturns =
  status :: "int option"
  stderr :: "string option"

text \<open>
  The system the function runs on. \<open>getCommandLocationOnSystem\<close> and
  \<open>getMutoolExtractionFolder\<close> are the helpers of \<open>utils\<close>; a location that is
  \<open>null\<close> or the empty string is falsy. \<open>readdirSync\<close> throws (\<open>None\<close>) or lists
  the folder; \<open>renameSync\<close> throws (\<open>False\<close>) or renames.
\<close>

record System =
  getCommandLocationOnSystem :: "string \<Rightarrow> string option"
  getMutoolExtractionFolder :: string
  spawnSync :: "string \<Rightarrow> string list \<Rightarrow> string \<Rightarrow> SpawnSyncReturns"
  readdirSync :: "string \<Rightarrow> string list option"
  renameSync :: "string \<Rightarrow> string \<Rightarrow> bool"

definition truthy :: "string option \<Rightarrow> bool" where
  "truthy s = (case s of None \<Rightarrow> False | Some t \<Rightarrow> t \<noteq> [])"

text \<open>
  The regular expression \<open>/^[A-Z]{6}\+(.*)\-[0-9]+\.ttf$/\<close>: six capital letters, a plus
  sign, any text without a line break (the group), a hyphen, one or more digits and
  \<open>.ttf\<close>. The digits hold no hyphen, so the group ends at the last hyphen.
\<close>

definition isUpper :: "char \<Rightarrow> bool" where
  "isUpper c = ((65::nat) \<le> of_char c \<and> of_char c \<le> (90::nat))"

definition noLineBreak :: "string \<Rightarrow> bool" where
  "noLineBreak s =
     (\<not> occursIn (\<lambda>c. c) [char_of (10::nat)] s \<and> \<not> occursIn (\<lambda>c. c) [char_of (13::nat)] s
      \<and> \<not> occursIn (\<lambda>c. c) [char_of (226::nat), char_of (128::nat), char_of (168::nat)] s
      \<and> \<not> occursIn (\<lambda>c. c) [char_of (226::nat), char_of (128::nat), char_of (169::nat)] s)"

definition ttfMatch :: "string \<Rightarrow> string option" where
  "ttfMatch file =
     (let rest = drop 7 file;
          body = take (length rest - 4) rest;
          digits = rev (takeWhile isDigit (rev body));
          pre = take (length body - length digits) body
      in if length file \<ge> 7 \<and> list_all isUpper (take 6 file) \<and> file ! 6 = CHR ''+''
            \<and> length rest \<ge> 4 \<and> drop (length rest - 4) rest = ''.ttf''
            \<and> digits \<noteq> [] \<and> pre \<noteq> [] \<and> last pre = CHR ''-'' \<and> noLineBreak (butlast pre)
         then Some (butlast pre) else None)"

text \<open>
  The \<open>forEach\<close> over the files of the folder: \<open>True\<close> when every rename returned,
  \<open>False\<close> when one threw (the remaining files are then not visited).
\<close>

fun renameFonts :: "System \<Rightarrow> string \<Rightarrow> string list \<Rightarrow> bool" where
  "renameFonts sys extractLocation [] = True"
| "renameFonts sys extractLocation (file # files) =
     (case ttfMatch file of
        None \<Rightarrow> renameFonts sys extractLocation files
      | Some m \<Rightarrow>
          if renameSync sys (extractLocation @ ''/'' @ file) (extractLocation @ ''/'' @ m @ ''.ttf'')
          then renameFonts sys extractLocation files
          else False)"

definition extractImagesAndFonts :: "System \<Rightarrow> string \<Rightarrow> promise" where
  "extractImagesAndFonts sys pdfInputFile =
     (let mutoolPath = getCommandLocationOnSystem sys ''mutool''
      in if \<not> truthy mutoolPath then settle Pending (Resolved '''')
         else
           (let extractLocation = getMutoolExtractionFolder sys;
                ret = spawnSync sys ''mutool'' [''extract'', pdfInputFile] extractLocation
            in case (if status ret \<noteq> Some 0
                     then (case stderr ret of
                             None \<Rightarrow> Inl TypeErrorThrown
                           | Some text \<Rightarrow> Inr (settle Pending (Rejected (StderrText text))))
                     else Inr Pending) of
                 Inl thrown \<Rightarrow> settle Pending (Rejected thrown)
               | Inr p \<Rightarrow>
                   (case readdirSync sys extractLocation of
                      None \<Rightarrow> settle p (Rejected FsErrorThrown)
                    | Some files \<Rightarrow>
                        if renameFonts sys extractLocation files
                        then settle p (Resolved extractLocation)
                        else settle p (Rejected FsErrorThrown))))"

definition isRejected :: "promise \<Rightarrow> bool" where
  "isRejected p = (case p of Rejected r \<Rightarrow> True | _ \<Rightarrow> False)"

text \<open>
  A system on which mutool is installed and exits with status 0, and on which listing the
  extraction folder fails.
\<close>

definition systemWithUnreadableFolder :: System where
  "systemWithUnreadableFolder =
     \<lparr>getCommandLocationOnSystem = (\<lambda>cmd. Some ''/usr/bin/mutool''),
      getMutoolExtractionFolder = ''/tmp/extract'',
      spawnSync = (\<lambda>cmd args cwd. \<lparr>status = Some 0, stderr = Some ''''\<rparr>),
      readdirSync = (\<lambda>dir. None),
      renameSync = (\<lambda>old new. True)\<rparr>"

text \<open>A system without mutool, and a system on which everything succeeds.\<close>

definition systemWithoutMutool :: System where
  "systemWithoutMutool =
     \<lparr>getCommandLocationOnSystem = (\<lambda>cmd. None),
      getMutoolExtractionFolder = ''/tmp/extract'',
      spawnSync = (\<lambda>cmd args cwd. \<lparr>status = Some 1, stderr = Some ''not found''\<rparr>),
      readdirSync = (\<lambda>dir. None),
      renameSync = (\<lambda>old new. False)\<rparr>"

definition systemWithMutool :: System where
  "systemWithMutool =
     \<lparr>getCommandLocationOnSystem = (\<lambda>cmd. Some ''/usr/bin/mutool''),
      getMutoolExtractionFolder = ''/tmp/extract'',
      spawnSync = (\<lambda>cmd args cwd. \<lparr>status = Some 0, stderr = Some ''''\<rparr>),
      readdirSync = (\<lambda>dir. Some [''ABCDEF+Arial-Bold-12.ttf'', ''img-0001.png'']),
      renameSync = (\<lambda>old new. True)\<rparr>"

section \<open>Table reconstruction\<close>

text \<open>
  The table detection module and the table types of the document representation are not
  among the sources; only their tests are. The definitions of this section are modelled
  from the specification: the data model of its section 3, and the steps 1 to 4 and the
  failure policy of its section 4.3. Coordinates are reals and \<open>top\<close> grows downwards.
\<close>

text \<open>
  Modelled from the spec: the derived edge \<open>right = left + width\<close> of a bounding box
  (the \<open>BoundingBox\<close> class is missing).
\<close>

definition right :: "real BoundingBox \<Rightarrow> real" where
  "right b = left b + width b"

text \<open>
  Modelled from the spec: the derived edge \<open>bottom = top + height\<close> of a bounding box
  (the \<open>BoundingBox\<close> class is missing).
\<close>

definition bottom :: "real BoundingBox \<Rightarrow> real" where
  "bottom b = top_b b + height b"

text \<open>
  Modelled from the spec: a raw cell record \<open>{boundingBox, text}\<close> of the Extractor's
  output (its type is missing). A raw grid is an ordered sequence of raw rows, each an
  ordered sequence of raw cells, with no span information.
\<close>

record RawCell =
  boundingBox :: "real BoundingBox"
  text_r :: string

type_synonym RawTableGrid = "RawCell list list"

text \<open>
  Modelled from the spec: \<open>TableCell\<close> (the class is missing) holds
  \<open>{boundingBox, colspan, rowspan, content}\<close>; the content is kept as the text of the
  raw cell. A \<open>TableRow\<close> is an ordered sequence of cells.
\<close>

record TableCell =
  box_t :: "real BoundingBox"
  colspan :: nat
  rowspan :: nat
  content_t :: string

type_synonym TableRow = "TableCell list"

text \<open>
  Modelled from the spec: \<open>Table\<close> (the class is missing) owns an ordered sequence of
  rows and has the bounding box every element has.
\<close>

record Table =
  box_tb :: "real BoundingBox"
  rows :: "TableRow list"

subsection \<open>Step 1: the canonical grid\<close>

text \<open>
  Modelled from the spec: step 1 of the missing reconstruction selects, across all raw
  rows of one table, the row with the greatest cell count as the reference row (the
  first one, when several rows have that count).
\<close>

definition referenceRow :: "RawTableGrid \<Rightarrow> RawCell list" where
  "referenceRow grid = foldl (\<lambda>best row. if length row > length best then row else best) [] grid"

text \<open>
  Modelled from the spec: step 1 of the missing reconstruction deduplicates sorted
  boundaries within a small numeric tolerance \<open>tol\<close>: a value within \<open>tol\<close> of the
  last value kept is dropped.
\<close>

fun dedup :: "real \<Rightarrow> real list \<Rightarrow> real list" where
  "dedup tol [] = []"
| "dedup tol [x] = [x]"
| "dedup tol (x # y # ys) = (if y - x \<le> tol then dedup tol (x # ys) else x # dedup tol (y # ys))"

text \<open>
  Modelled from the spec: a canonical boundary set of the missing reconstruction, the
  given edges sorted and deduplicated within the tolerance.
\<close>

definition boundaries :: "real \<Rightarrow> real list \<Rightarrow> real list" where
  "boundaries tol vs = dedup tol (sort vs)"

text \<open>
  Modelled from the spec: step 1 of the missing reconstruction; the left and right
  boundaries of the cells of the reference row define the canonical column boundary set
  \<open>C = [c0, c1, ..., cn]\<close>, with \<open>n\<close> columns.
\<close>

definition columnBoundaries :: "real \<Rightarrow> RawTableGrid \<Rightarrow> real list" where
  "columnBoundaries tol grid =
     boundaries tol (concat (map (\<lambda>c. [left (boundingBox c), right (boundingBox c)]) (referenceRow grid)))"

text \<open>
  Modelled from the spec: step 3 of the missing reconstruction builds the canonical row
  boundary set in the same way, from the top and bottom boundaries across the table.
\<close>

definition rowBoundaries :: "real \<Rightarrow> RawTableGrid \<Rightarrow> real list" where
  "rowBoundaries tol grid =
     boundaries tol (concat (map (\<lambda>c. [top_b (boundingBox c), bottom (boundingBox c)]) (concat grid)))"

subsection \<open>Steps 2 and 3: spans\<close>

text \<open>
  Modelled from the spec: the canonical intervals of the missing reconstruction, the
  pairs of consecutive boundaries.
\<close>

definition intervals :: "real list \<Rightarrow> (real \<times> real) list" where
  "intervals bs = zip bs (tl bs)"

text \<open>
  Modelled from the spec: step 2 of the missing reconstruction treats an interval as
  covered by a cell that reaches from \<open>lo\<close> to \<open>hi\<close> when the overlap of the cell with
  the interval exceeds 50% of the width of the interval.
\<close>

definition covers :: "real \<Rightarrow> real \<Rightarrow> real \<times> real \<Rightarrow> bool" where
  "covers lo hi iv = (min hi (snd iv) - max lo (fst iv) > (snd iv - fst iv) / 2)"

text \<open>
  Modelled from the spec: the span of a cell in the missing reconstruction is the number
  of canonical intervals it covers.
\<close>

definition spanCount :: "real \<Rightarrow> real \<Rightarrow> real list \<Rightarrow> nat" where
  "spanCount lo hi bs = length (filter (covers lo hi) (intervals bs))"

text \<open>
  Modelled from the spec: the position of a cell in the missing reconstruction is the
  index of the first canonical interval it covers.
\<close>

definition firstCovered :: "real \<Rightarrow> real \<Rightarrow> real list \<Rightarrow> nat" where
  "firstCovered lo hi bs = length (takeWhile (\<lambda>iv. \<not> covers lo hi iv) (intervals bs))"

text \<open>
  Modelled from the spec: step 2 of the missing reconstruction; the colspan of a cell is
  the count of canonical column intervals it covers.
\<close>

definition colspanOf :: "real list \<Rightarrow> real BoundingBox \<Rightarrow> nat" where
  "colspanOf C b = spanCount (left b) (right b) C"

text \<open>
  Modelled from the spec: step 3 of the missing reconstruction; the rowspan of a cell is
  the count of canonical row intervals it covers.
\<close>

definition rowspanOf :: "real list \<Rightarrow> real BoundingBox \<Rightarrow> nat" where
  "rowspanOf R b = spanCount (top_b b) (bottom b) R"

text \<open>
  Modelled from the spec: the column position of a cell in the missing reconstruction,
  the first canonical column it covers.
\<close>

definition columnOf :: "real list \<Rightarrow> real BoundingBox \<Rightarrow> nat" where
  "columnOf C b = firstCovered (left b) (right b) C"

text \<open>
  Modelled from the spec: step 3 of the missing reconstruction speaks of a column
  position claimed by an active rowspan. A claim is
  \<open>(first column, width, number of following rows)\<close>; a column position is claimed when
  it lies in the column range of a claim.
\<close>

type_synonym claim = "nat \<times> nat \<times> nat"

definition claimed :: "claim list \<Rightarrow> nat \<Rightarrow> bool" where
  "claimed active col = (\<exists>cl \<in> set active. fst cl \<le> col \<and> col < fst cl + fst (snd cl))"

text \<open>
  Modelled from the spec: step 4 of the missing reconstruction adds, to the colspans of a
  row, the continuation widths of the active rowspans.
\<close>

definition continuationWidth :: "claim list \<Rightarrow> nat" where
  "continuationWidth active = sum_list (map (\<lambda>cl. fst (snd cl)) active)"

text \<open>
  Modelled from the spec: in the missing reconstruction a rowspan of \<open>r\<close> occupies the
  next \<open>r - 1\<close> rows; after a row, every claim has one row less to cover and the claims
  that end are dropped.
\<close>

definition advance :: "claim list \<Rightarrow> claim list" where
  "advance active = map (\<lambda>cl. (fst cl, fst (snd cl), snd (snd cl) - 1))
                      (filter (\<lambda>cl. snd (snd cl) > 1) active)"

text \<open>
  Modelled from the spec: in the missing reconstruction a cell with \<open>rowspan > 1\<close>
  claims its column range in the following \<open>rowspan - 1\<close> rows.
\<close>

definition claimsOf :: "real list \<Rightarrow> TableCell list \<Rightarrow> claim list" where
  "claimsOf C cells = map (\<lambda>c. (columnOf C (box_t c), colspan c, rowspan c - 1))
                        (filter (\<lambda>c. rowspan c > 1) cells)"

text \<open>
  Modelled from the spec: the cell the missing reconstruction builds from a raw cell,
  with the spans of steps 2 and 3.
\<close>

definition toCell :: "real list \<Rightarrow> real list \<Rightarrow> RawCell \<Rightarrow> TableCell" where
  "toCell C R raw = \<lparr>box_t = boundingBox raw, colspan = colspanOf C (boundingBox raw),
                     rowspan = rowspanOf R (boundingBox raw), content_t = text_r raw\<rparr>"

text \<open>
  Modelled from the spec: the cell the fallback of the missing reconstruction emits for
  a raw cell of a malformed row, with uncorrected spans (\<open>colspan = 1\<close>).
\<close>

definition degradedCell :: "RawCell \<Rightarrow> TableCell" where
  "degradedCell raw = \<lparr>box_t = boundingBox raw, colspan = 1, rowspan = 1, content_t = text_r raw\<rparr>"

subsection \<open>Step 4: assembly, and the fallback for a malformed row\<close>

text \<open>
  Modelled from the spec: one row of the missing reconstruction (steps 3 and 4 and the
  failure policy). The row holds, from left to right, the cells of the raw row that are
  not absorbed by an active rowspan. When the colspans of the row and the continuation
  widths of the active rowspans do not add up to the canonical column count, the row is
  emitted with \<open>colspan = 1\<close> for each cell; the cells absorbed by a rowspan stay
  absorbed. The result is the row and the claims active in the next row.
\<close>

definition buildRow :: "real list \<Rightarrow> real list \<Rightarrow> claim list \<Rightarrow> RawCell list \<Rightarrow> TableRow \<times> claim list" where
  "buildRow C R active rawRow =
     (let kept = filter (\<lambda>raw. \<not> claimed active (columnOf C (boundingBox raw))) rawRow;
          emitted = map (toCell C R) kept
      in if sum_list (map colspan emitted) + continuationWidth active = length C - 1
         then (emitted, advance active @ claimsOf C emitted)
         else (map degradedCell kept, advance active))"

text \<open>
  Modelled from the spec: step 4 of the missing reconstruction builds the rows in
  top-to-bottom order, one for each raw row.
\<close>

fun buildRows :: "real list \<Rightarrow> real list \<Rightarrow> claim list \<Rightarrow> RawTableGrid \<Rightarrow> TableRow list" where
  "buildRows C R active [] = []"
| "buildRows C R active (rawRow # rest) =
     fst (buildRow C R active rawRow) # buildRows C R (snd (buildRow C R active rawRow)) rest"

text \<open>
  Modelled from the spec: the bounding box of the table in the missing reconstruction,
  the smallest box containing all raw cell boxes (here of a non-empty list).
\<close>

definition mergeBoxes :: "real BoundingBox \<Rightarrow> real BoundingBox list \<Rightarrow> real BoundingBox" where
  "mergeBoxes b bs =
     (let l = foldl min (left b) (map left bs);
          t = foldl min (top_b b) (map top_b bs);
          r = foldl max (right b) (map right bs);
          bt = foldl max (bottom b) (map bottom bs)
      in \<lparr>left = l, top_b = t, width = r - l, height = bt - t\<rparr>)"

text \<open>
  Modelled from the spec: a degenerate bounding box, which makes the missing
  reconstruction discard the table: one without width or without height.
\<close>

definition degenerate :: "real BoundingBox \<Rightarrow> bool" where
  "degenerate b = (width b \<le> 0 \<or> height b \<le> 0)"

text \<open>
  Modelled from the spec: the missing reconstruction of one table. A grid with zero rows
  or zero columns, or with a degenerate bounding box, is discarded (\<open>None\<close>).
\<close>

definition reconstruct :: "real \<Rightarrow> RawTableGrid \<Rightarrow> Table option" where
  "reconstruct tol grid =
     (let C = columnBoundaries tol grid;
          R = rowBoundaries tol grid
      in case map boundingBox (concat grid) of
           [] \<Rightarrow> None
         | b # bs \<Rightarrow>
             if length grid = 0 \<or> length C - 1 = 0 \<or> (\<exists>x \<in> set (b # bs). degenerate x) then None
             else Some \<lparr>box_tb = mergeBoxes b bs, rows = buildRows C R [] grid\<rparr>)"

subsection \<open>The row sum\<close>

text \<open>
  The row invariant of the specification, read off a finished table: the colspans of the
  cells of earlier rows whose rowspan reaches row \<open>i\<close>.
\<close>

definition continuationInto :: "TableRow list \<Rightarrow> nat \<Rightarrow> nat" where
  "continuationInto rs i =
     sum_list (map (\<lambda>j. sum_list (map colspan (filter (\<lambda>c. j + rowspan c > i) (rs ! j)))) [0..<i])"

text \<open>
  The row sum of row \<open>i\<close>: the colspans of the cells that begin in the row plus the
  continuation from earlier rows.
\<close>

definition rowSum :: "TableRow list \<Rightarrow> nat \<Rightarrow> nat" where
  "rowSum rs i = sum_list (map colspan (rs ! i)) + continuationInto rs i"

text \<open>A raw cell from its four edges, and a raw row from its column edges and its two row edges.\<close>

definition rawCell :: "real \<Rightarrow> real \<Rightarrow> real \<Rightarrow> real \<Rightarrow> RawCell" where
  "rawCell x0 y0 x1 y1 =
     \<lparr>boundingBox = \<lparr>left = x0, top_b = y0, width = x1 - x0, height = y1 - y0\<rparr>, text_r = ''''\<rparr>"

definition rawRowOf :: "real list \<Rightarrow> real \<Rightarrow> real \<Rightarrow> RawCell list" where
  "rawRowOf xs y0 y1 = map (\<lambda>iv. rawCell (fst iv) y0 (snd iv) y1) (intervals xs)"

text \<open>
  For the proofs: a claim in the list of active rowspans covers at least the next row;
  the width of the claims that still hold \<open>i\<close> rows later; and a row as the fallback
  emits it.
\<close>

definition validClaims :: "claim list \<Rightarrow> bool" where
  "validClaims active = (\<forall>cl \<in> set active. snd (snd cl) \<ge> 1)"

definition pendingWidth :: "claim list \<Rightarrow> nat \<Rightarrow> nat" where
  "pendingWidth active i = sum_list (map (\<lambda>cl. fst (snd cl)) (filter (\<lambda>cl. snd (snd cl) > i) active))"

definition degradedRow :: "TableRow \<Rightarrow> bool" where
  "degradedRow r = (\<forall>c \<in> set r. colspan c = 1 \<and> rowspan c = 1)"

text \<open>A column position lies in the column range that starts at \<open>first\<close> and is \<open>w\<close> wide.\<close>

definition inColumns :: "nat \<Rightarrow> nat \<Rightarrow> nat \<Rightarrow> bool" where
  "inColumns first w col = (first \<le> col \<and> col < first + w)"

text \<open>
  A raw grid whose rows all have the same cell count and whose cell boundaries are aligned:
  the cell in row \<open>i\<close> and column \<open>j\<close> reaches from \<open>xs ! j\<close> to \<open>xs ! (j + 1)\<close> and
  from \<open>ys ! i\<close> to \<open>ys ! (i + 1)\<close>. The texts of the cells are arbitrary.
\<close>

definition alignedTo :: "real list \<Rightarrow> real list \<Rightarrow> RawTableGrid \<Rightarrow> bool" where
  "alignedTo xs ys grid =
     (length grid = length ys - 1
      \<and> (\<forall>i \<in> set [0..<length grid].
            length (grid ! i) = length xs - 1
            \<and> (\<forall>j \<in> set [0..<length xs - 1].
                  boundingBox (grid ! i ! j) =
                    \<lparr>left = xs ! j, top_b = ys ! i,
                     width = xs ! Suc j - xs ! j, height = ys ! Suc i - ys ! i\<rparr>)))"

text \<open>Grids for the examples below. In the first one the second row stops short of the last column.\<close>

definition gridWithShortRow :: RawTableGrid where
  "gridWithShortRow = [rawRowOf [0, 10, 20] 0 10, rawRowOf [0, 10] 10 20]"

definition gridWithTallCell :: RawTableGrid where
  "gridWithTallCell = [rawCell 0 0 10 20 # rawRowOf [10, 20, 30] 0 10,
                       rawCell 0 0 10 20 # rawRowOf [10, 20, 30] 10 20]"

definition gridWithFullWidthRow :: RawTableGrid where
  "gridWithFullWidthRow = [rawRowOf [0, 10, 20, 30, 40, 50, 60] 0 10, [rawCell 0 10 60 20]]"

definition gridOf3by6 :: RawTableGrid where
  "gridOf3by6 = [rawRowOf [0, 10, 20, 30, 40, 50, 60] 0 10,
                 rawRowOf [0, 10, 20, 30, 40, 50, 60] 10 20,
                 rawRowOf [0, 10, 20, 30, 40, 50, 60] 20 30]"

section \<open>Properties\<close>

lemma jnth_simps [simp]:
  "jnth (a # xs) 0 = a"
  "jnth (a # b # xs) (Suc 0) = b"
  "jnth (a # b # c # xs) 2 = c"
  "jnth (a # b # c # d # xs) 3 = d"
  by (simp_all add: jnth_def numeral_2_eq_2 numeral_3_eq_3)

text \<open>
  C9. For a pdfminer box string whose four parts parse to \<open>x0, y0, x1, y1\<close>, a page
  height \<open>H\<close> and a scaling factor \<open>s\<close>, \<open>getBoundingBox\<close> returns
  \<open>left = x0 * s\<close>, \<open>width = |x1 * s - x0 * s|\<close>, \<open>height = |y0 * s - y1 * s|\<close> and
  \<open>top = |H - y0 * s| - height\<close>; width and height are not negative.
\<close>

theorem getBoundingBox_converts:
  assumes "js_split bbox splitter = [sx0, sy0, sx1, sy1]"
    and "parseFloat sx0 = Some x0" and "parseFloat sy0 = Some y0"
    and "parseFloat sx1 = Some x1" and "parseFloat sy1 = Some y1"
  shows "getBoundingBox parseFloat bbox splitter (Some H) (Some s) =
           \<lparr>left = Some (x0 * s),
            top_b = Some (\<bar>H - y0 * s\<bar> - \<bar>y0 * s - y1 * s\<bar>),
            width = Some \<bar>x1 * s - x0 * s\<bar>,
            height = Some \<bar>y0 * s - y1 * s\<bar>\<rparr>
         \<and> 0 \<le> \<bar>x1 * s - x0 * s\<bar> \<and> 0 \<le> \<bar>y0 * s - y1 * s\<bar>"
  using assms
  by (simp add: getBoundingBox_def Let_def jmul_def jsub_def jabs_def jlift2_def)

theorem getBoundingBox_converts_witness:
  "js_split ''72.000,244.190,373.280,506.640'' '','' = [''72.000'', ''244.190'', ''373.280'', ''506.640'']
   \<and> parseDecimal ''72.000'' = Some 72 \<and> parseDecimal ''244.190'' = Some (24419 / 100)
   \<and> parseDecimal ''373.280'' = Some (37328 / 100) \<and> parseDecimal ''506.640'' = Some (50664 / 100)
   \<and> getBoundingBox parseDecimal ''72.000,244.190,373.280,506.640'' '','' (Some 792) (Some 1) =
        \<lparr>left = Some 72, top_b = Some (28536 / 100), width = Some (30128 / 100),
         height = Some (26245 / 100)\<rparr>"
  using getBoundingBox_converts [of "''72.000,244.190,373.280,506.640''" "'',''"
      "''72.000''" "''244.190''" "''373.280''" "''506.640''" parseDecimal
      72 "24419 / 100" "37328 / 100" "50664 / 100" 792 1]
  by (simp add: js_split_def parseDecimal_def isDigit_def digitsValue_def)

subsection \<open>Words are never empty\<close>

lemma breakLineIntoWords_halves:
  "breakLineIntoWords parseFloat ncolourToHex isEqual undefinedFont merge texts wordSeparator pageHeight scalingFactor =
     (case mapE (toCharacter parseFloat ncolourToHex pageHeight scalingFactor)
             (filter (\<lambda>char. \<not> (case tval char of None \<Rightarrow> False | Some t \<Rightarrow> t \<in> set notAllowedChars)
                              \<and> \<not> isFakeChar char (thereAreFakeSpaces texts)) texts) of
        Inl e \<Rightarrow> Inl e
      | Inr chars0 \<Rightarrow> wordsOfChars merge isEqual undefinedFont (trimSeparators chars0 wordSeparator))"
  unfolding breakLineIntoWords_def wordsOfChars_def trimSeparators_def Let_def
  by (rule refl)

lemma newWord_content:
  "newWord merge isEqual undefinedFont charSelection = Inr w \<Longrightarrow> content_w w = charSelection"
  by (auto simp: newWord_def split: sum.splits)

lemma newWord_agree:
  assumes "charSelection \<noteq> []" and "\<forall>boxes. boxes \<noteq> [] \<longrightarrow> merge boxes = merge' boxes"
  shows "newWord merge isEqual undefinedFont charSelection = newWord merge' isEqual undefinedFont charSelection"
proof -
  have "map box_c charSelection \<noteq> []" using assms(1) by simp
  then have "merge (map box_c charSelection) = merge' (map box_c charSelection)"
    using assms(2) by blast
  then show ?thesis by (simp add: newWord_def)
qed

lemma wordsBetween_nonempty:
  "\<forall>w \<in> set words. content_w w \<noteq> [] \<Longrightarrow>
   wordsBetween merge isEqual undefinedFont chars sepLocs is words = Inr ws \<Longrightarrow>
   \<forall>w \<in> set ws. content_w w \<noteq> []"
proof (induction "is" arbitrary: words)
  case Nil
  then show ?case by simp
next
  case (Cons i "is")
  let ?sel = "definedChars (slice chars (sepLocs ! i + 1)
                 (if i \<noteq> length sepLocs - 1 then sepLocs ! (i + 1) else length chars))"
  show ?case
  proof (cases "?sel = []")
    case True
    then have "wordsBetween merge isEqual undefinedFont chars sepLocs is words = Inr ws"
      using Cons.prems(2) by (simp add: Let_def)
    with Cons.IH [OF Cons.prems(1)] show ?thesis .
  next
    case False
    show ?thesis
    proof (cases "newWord merge isEqual undefinedFont ?sel")
      case (Inl e)
      then show ?thesis using Cons.prems(2) False by (simp add: Let_def)
    next
      case (Inr w)
      then have "content_w w = ?sel" by (rule newWord_content)
      then have all: "\<forall>x \<in> set (words @ [w]). content_w x \<noteq> []"
        using Cons.prems(1) False by auto
      have "wordsBetween merge isEqual undefinedFont chars sepLocs is (words @ [w]) = Inr ws"
        using Cons.prems(2) False Inr by (simp add: Let_def)
      with Cons.IH [OF all] show ?thesis .
    qed
  qed
qed

lemma wordsBetween_agree:
  assumes "\<forall>boxes. boxes \<noteq> [] \<longrightarrow> merge boxes = merge' boxes"
  shows "wordsBetween merge isEqual undefinedFont chars sepLocs is words
         = wordsBetween merge' isEqual undefinedFont chars sepLocs is words"
proof (induction "is" arbitrary: words)
  case Nil
  then show ?case by simp
next
  case (Cons i "is")
  let ?sel = "definedChars (slice chars (sepLocs ! i + 1)
                 (if i \<noteq> length sepLocs - 1 then sepLocs ! (i + 1) else length chars))"
  show ?case
  proof (cases "?sel = []")
    case True
    then show ?thesis using Cons.IH by (simp add: Let_def)
  next
    case False
    then have "newWord merge isEqual undefinedFont ?sel = newWord merge' isEqual undefinedFont ?sel"
      using assms by (rule newWord_agree)
    then show ?thesis using False Cons.IH by (simp add: Let_def split: sum.splits)
  qed
qed

lemma zip_upt_set: "set (zip chars [0..<length chars]) = (\<lambda>k. (chars ! k, k)) ` {..<length chars}"
  by (auto simp: set_zip image_iff)

lemma undefined_positions:
  "set (map the (filter (\<lambda>l. l \<noteq> None)
          (map (\<lambda>(c, i). if c = None then Some i else None) (zip chars [0..<length chars]))))
   = {i. i < length chars \<and> chars ! i = None}"
proof -
  have "set (filter (\<lambda>l. l \<noteq> None)
          (map (\<lambda>(c, i). if c = None then Some i else None) (zip chars [0..<length chars])))
        = Some ` {i. i < length chars \<and> chars ! i = None}"
    by (auto simp: zip_upt_set image_iff split: if_splits)
  then show ?thesis by (simp add: image_image)
qed

lemma no_separator_defined:
  assumes "filter (\<lambda>l. l \<noteq> length chars)
             (filter (\<lambda>l. l \<noteq> 0)
                (map the (filter (\<lambda>l. l \<noteq> None)
                   (map (\<lambda>(c, i). if c = None then Some i else None)
                      (zip chars [0..<length chars]))))) = []"
    and "\<not> (length chars = 0 \<or> (length chars = 1 \<and> chars ! 0 = None))"
  shows "definedChars chars \<noteq> []"
proof -
  let ?idx = "map the (filter (\<lambda>l. l \<noteq> None)
          (map (\<lambda>(c, i). if c = None then Some i else None) (zip chars [0..<length chars])))"
  have all0: "i = 0" if i: "i < length chars" "chars ! i = None" for i
  proof -
    have "i \<in> set ?idx" using i by (simp only: undefined_positions) simp
    moreover have "\<forall>l \<in> set ?idx. \<not> (l \<noteq> 0 \<and> l \<noteq> length chars)"
      using assms(1) by (simp only: filter_filter filter_empty_conv)
    ultimately show ?thesis using i(1) by auto
  qed
  define j :: nat where "j = (if length chars = 1 then 0 else 1)"
  have j: "j < length chars" "j = 0 \<longrightarrow> chars ! 0 \<noteq> None"
    using assms(2) by (auto simp: j_def Suc_lessI)
  have "chars ! j \<noteq> None"
  proof
    assume "chars ! j = None"
    then have "j = 0" using all0 j(1) by blast
    then show False using j \<open>chars ! j = None\<close> by auto
  qed
  then have "chars ! j \<in> set (filter (\<lambda>c. c \<noteq> None) chars)" using j(1) by simp
  then have "filter (\<lambda>c. c \<noteq> None) chars \<noteq> []" by (metis empty_iff empty_set)
  then show ?thesis unfolding definedChars_def by simp
qed

text \<open>The four ways through the second half of \<open>breakLineIntoWords\<close>.\<close>

lemma wordsOfChars_empty:
  "length chars = 0 \<or> (length chars = 1 \<and> chars ! 0 = None) \<Longrightarrow>
   wordsOfChars merge isEqual undefinedFont chars = Inr []"
  by (simp add: wordsOfChars_def)

lemma wordsOfChars_one_word:
  assumes "\<not> (length chars = 0 \<or> (length chars = 1 \<and> chars ! 0 = None))"
    and "filter (\<lambda>l. l \<noteq> length chars)
             (filter (\<lambda>l. l \<noteq> 0)
                (map the (filter (\<lambda>l. l \<noteq> None)
                   (map (\<lambda>(c, i). if c = None then Some i else None)
                      (zip chars [0..<length chars]))))) = []"
  shows "wordsOfChars merge isEqual undefinedFont chars =
           (case newWord merge isEqual undefinedFont (definedChars chars) of
              Inl e \<Rightarrow> Inl e
            | Inr w \<Rightarrow> Inr [w])"
  unfolding wordsOfChars_def Let_def if_not_P [OF assms(1)] assms(2)
  by (simp split: sum.splits)

lemma wordsOfChars_more_words:
  assumes "\<not> (length chars = 0 \<or> (length chars = 1 \<and> chars ! 0 = None))"
    and "sepLocs = filter (\<lambda>l. l \<noteq> length chars)
             (filter (\<lambda>l. l \<noteq> 0)
                (map the (filter (\<lambda>l. l \<noteq> None)
                   (map (\<lambda>(c, i). if c = None then Some i else None)
                      (zip chars [0..<length chars])))))"
    and "sepLocs \<noteq> []"
  shows "wordsOfChars merge isEqual undefinedFont chars =
           (if definedChars (slice chars 0 (sepLocs ! 0)) = []
            then wordsBetween merge isEqual undefinedFont chars sepLocs [0..<length sepLocs] []
            else (case newWord merge isEqual undefinedFont (definedChars (slice chars 0 (sepLocs ! 0))) of
                    Inl e \<Rightarrow> Inl e
                  | Inr w \<Rightarrow> wordsBetween merge isEqual undefinedFont chars sepLocs
                               [0..<length sepLocs] [w]))"
proof -
  have "length sepLocs \<noteq> 0" using assms(3) by simp
  then show ?thesis
    unfolding wordsOfChars_def Let_def if_not_P [OF assms(1)] assms(2) [symmetric]
    by (simp split: sum.splits)
qed

lemma wordsOfChars_nonempty:
  assumes "wordsOfChars merge isEqual undefinedFont chars = Inr ws"
  shows "\<forall>w \<in> set ws. content_w w \<noteq> []"
proof (cases "length chars = 0 \<or> (length chars = 1 \<and> chars ! 0 = None)")
  case True
  then have "ws = []" using assms wordsOfChars_empty [OF True, of merge isEqual undefinedFont] by simp
  then show ?thesis by simp
next
  case guard: False
  define sepLocs where "sepLocs = filter (\<lambda>l. l \<noteq> length chars)
                         (filter (\<lambda>l. l \<noteq> 0)
                            (map the (filter (\<lambda>l. l \<noteq> None)
                               (map (\<lambda>(c, i). if c = None then Some i else None)
                                  (zip chars [0..<length chars])))))"
  show ?thesis
  proof (cases "sepLocs = []")
    case True
    then have empty: "filter (\<lambda>l. l \<noteq> length chars)
                         (filter (\<lambda>l. l \<noteq> 0)
                            (map the (filter (\<lambda>l. l \<noteq> None)
                               (map (\<lambda>(c, i). if c = None then Some i else None)
                                  (zip chars [0..<length chars]))))) = []"
      unfolding sepLocs_def .
    then have ne: "definedChars chars \<noteq> []" using guard by (rule no_separator_defined)
    from assms obtain w where "newWord merge isEqual undefinedFont (definedChars chars) = Inr w"
        "ws = [w]"
      unfolding wordsOfChars_one_word [OF guard empty] by (auto split: sum.splits)
    then show ?thesis using ne newWord_content by fastforce
  next
    case seps: False
    let ?sel = "definedChars (slice chars 0 (sepLocs ! 0))"
    note eq = wordsOfChars_more_words [OF guard sepLocs_def seps, of merge isEqual undefinedFont]
    show ?thesis
    proof (cases "?sel = []")
      case True
      then have "wordsBetween merge isEqual undefinedFont chars sepLocs [0..<length sepLocs] [] = Inr ws"
        using assms eq by simp
      moreover have "\<forall>w \<in> set ([]::Word list). content_w w \<noteq> []" by simp
      ultimately show ?thesis using wordsBetween_nonempty by blast
    next
      case False
      show ?thesis
      proof (cases "newWord merge isEqual undefinedFont ?sel")
        case (Inl e)
        then show ?thesis using assms eq False by simp
      next
        case (Inr w)
        then have "content_w w = ?sel" by (rule newWord_content)
        then have all: "\<forall>x \<in> set [w]. content_w x \<noteq> []" using False by simp
        have "wordsBetween merge isEqual undefinedFont chars sepLocs [0..<length sepLocs] [w] = Inr ws"
          using assms eq False Inr by simp
        with all show ?thesis using wordsBetween_nonempty by blast
      qed
    qed
  qed
qed

lemma wordsOfChars_agree:
  assumes "\<forall>boxes. boxes \<noteq> [] \<longrightarrow> merge boxes = merge' boxes"
  shows "wordsOfChars merge isEqual undefinedFont chars = wordsOfChars merge' isEqual undefinedFont chars"
proof (cases "length chars = 0 \<or> (length chars = 1 \<and> chars ! 0 = None)")
  case True
  then show ?thesis by (simp only: wordsOfChars_empty)
next
  case guard: False
  define sepLocs where "sepLocs = filter (\<lambda>l. l \<noteq> length chars)
                         (filter (\<lambda>l. l \<noteq> 0)
                            (map the (filter (\<lambda>l. l \<noteq> None)
                               (map (\<lambda>(c, i). if c = None then Some i else None)
                                  (zip chars [0..<length chars])))))"
  note between = wordsBetween_agree [OF assms, of isEqual undefinedFont chars]
  show ?thesis
  proof (cases "sepLocs = []")
    case True
    then have empty: "filter (\<lambda>l. l \<noteq> length chars)
                         (filter (\<lambda>l. l \<noteq> 0)
                            (map the (filter (\<lambda>l. l \<noteq> None)
                               (map (\<lambda>(c, i). if c = None then Some i else None)
                                  (zip chars [0..<length chars]))))) = []"
      unfolding sepLocs_def .
    then have "definedChars chars \<noteq> []" using guard by (rule no_separator_defined)
    then have "newWord merge isEqual undefinedFont (definedChars chars)
               = newWord merge' isEqual undefinedFont (definedChars chars)"
      using assms by (rule newWord_agree)
    then show ?thesis by (simp only: wordsOfChars_one_word [OF guard empty])
  next
    case seps: False
    let ?sel = "definedChars (slice chars 0 (sepLocs ! 0))"
    note eq = wordsOfChars_more_words [OF guard sepLocs_def seps]
    show ?thesis
    proof (cases "?sel = []")
      case True
      then show ?thesis using between by (simp add: eq)
    next
      case False
      then have "newWord merge isEqual undefinedFont ?sel = newWord merge' isEqual undefinedFont ?sel"
        using assms by (rule newWord_agree)
      then show ?thesis using False between by (simp add: eq split: sum.splits)
    qed
  qed
qed

text \<open>
  C6. For every list of pdfminer text records and every function taken for
  \<open>BoundingBox.merge\<close>, every word \<open>breakLineIntoWords\<close> returns holds at least one
  character, and the result does not depend on what \<open>merge\<close> does on the empty list:
  two functions that agree on the non-empty lists give the same result. So no call of
  \<open>merge\<close> is on an empty list, and its error for the empty list cannot be reached.
\<close>

theorem breakLineIntoWords_never_merges_empty:
  "(\<forall>words. breakLineIntoWords parseFloat ncolourToHex isEqual undefinedFont merge texts wordSeparator
                 pageHeight scalingFactor = Inr words
        \<longrightarrow> (\<forall>w \<in> set words. length (content_w w) \<ge> 1))
   \<and> ((\<forall>boxes. boxes \<noteq> [] \<longrightarrow> merge boxes = merge' boxes)
        \<longrightarrow> breakLineIntoWords parseFloat ncolourToHex isEqual undefinedFont merge texts wordSeparator
              pageHeight scalingFactor
            = breakLineIntoWords parseFloat ncolourToHex isEqual undefinedFont merge' texts wordSeparator
              pageHeight scalingFactor)"
proof (intro conjI allI impI)
  fix words
  assume r: "breakLineIntoWords parseFloat ncolourToHex isEqual undefinedFont merge texts wordSeparator
                 pageHeight scalingFactor = Inr words"
  then obtain chars0 where "wordsOfChars merge isEqual undefinedFont (trimSeparators chars0 wordSeparator) = Inr words"
    unfolding breakLineIntoWords_halves by (auto split: sum.splits)
  then have "\<forall>w \<in> set words. content_w w \<noteq> []" by (rule wordsOfChars_nonempty)
  then show "\<forall>w \<in> set words. length (content_w w) \<ge> 1" by (simp add: Suc_le_eq)
next
  assume "\<forall>boxes. boxes \<noteq> [] \<longrightarrow> merge boxes = merge' boxes"
  then show "breakLineIntoWords parseFloat ncolourToHex isEqual undefinedFont merge texts wordSeparator
              pageHeight scalingFactor
            = breakLineIntoWords parseFloat ncolourToHex isEqual undefinedFont merge' texts wordSeparator
              pageHeight scalingFactor"
    unfolding breakLineIntoWords_halves by (simp add: wordsOfChars_agree split: sum.splits)
qed

theorem breakLineIntoWords_never_merges_empty_witness:
  "(\<exists>words.
     breakLineIntoWords parseDecimal (\<lambda>c. c) sameNameAndSize arial12 firstBoxOrError
       [\<lparr>tval = Some ''a'', tattr = Some \<lparr>a_font = ''Arial-Bold'', a_bbox = ''10,20,30,40'',
                                        a_size = ''12'', a_ncolour = ''0''\<rparr>\<rparr>,
        \<lparr>tval = None, tattr = None\<rparr>,
        \<lparr>tval = Some ''b'', tattr = Some \<lparr>a_font = ''Arial-Bold'', a_bbox = ''10,20,30,40'',
                                        a_size = ''12'', a_ncolour = ''0''\<rparr>\<rparr>]
       '','' (Some 100) (Some 1) = Inr words
     \<and> map (\<lambda>w. map content_c (content_w w)) words = [[''a''], [''b'']]
     \<and> list_all (\<lambda>w. length (content_w w) \<ge> 1) words)
   \<and> list_all (\<lambda>boxes. boxes = [] \<or> firstBoxOrError boxes = firstBoxOrZero boxes)
        [[], [\<lparr>left = Some 1, top_b = Some 2, width = Some 3, height = Some 4\<rparr>]]
   \<and> breakLineIntoWords parseDecimal (\<lambda>c. c) sameNameAndSize arial12 firstBoxOrError
       [\<lparr>tval = Some ''a'', tattr = Some \<lparr>a_font = ''Arial-Bold'', a_bbox = ''10,20,30,40'',
                                        a_size = ''12'', a_ncolour = ''0''\<rparr>\<rparr>,
        \<lparr>tval = None, tattr = None\<rparr>,
        \<lparr>tval = Some ''b'', tattr = Some \<lparr>a_font = ''Arial-Bold'', a_bbox = ''10,20,30,40'',
                                        a_size = ''12'', a_ncolour = ''0''\<rparr>\<rparr>]
       '','' (Some 100) (Some 1)
     = breakLineIntoWords parseDecimal (\<lambda>c. c) sameNameAndSize arial12 firstBoxOrZero
       [\<lparr>tval = Some ''a'', tattr = Some \<lparr>a_font = ''Arial-Bold'', a_bbox = ''10,20,30,40'',
                                        a_size = ''12'', a_ncolour = ''0''\<rparr>\<rparr>,
        \<lparr>tval = None, tattr = None\<rparr>,
        \<lparr>tval = Some ''b'', tattr = Some \<lparr>a_font = ''Arial-Bold'', a_bbox = ''10,20,30,40'',
                                        a_size = ''12'', a_ncolour = ''0''\<rparr>\<rparr>]
       '','' (Some 100) (Some 1)"
proof -
  let ?texts = "[\<lparr>tval = Some ''a'', tattr = Some \<lparr>a_font = ''Arial-Bold'', a_bbox = ''10,20,30,40'',
                                        a_size = ''12'', a_ncolour = ''0''\<rparr>\<rparr>,
        \<lparr>tval = None, tattr = None\<rparr>,
        \<lparr>tval = Some ''b'', tattr = Some \<lparr>a_font = ''Arial-Bold'', a_bbox = ''10,20,30,40'',
                                        a_size = ''12'', a_ncolour = ''0''\<rparr>\<rparr>]"
  let ?r = "breakLineIntoWords parseDecimal (\<lambda>c. c) sameNameAndSize arial12 firstBoxOrError
              ?texts '','' (Some 100) (Some 1)"
  note inst = breakLineIntoWords_never_merges_empty
    [of parseDecimal "\<lambda>c. c" sameNameAndSize arial12 firstBoxOrError ?texts "'',''" "Some 100" "Some 1"
        firstBoxOrZero]
  have "case ?r of Inl e \<Rightarrow> False
        | Inr words \<Rightarrow> map (\<lambda>w. map content_c (content_w w)) words = [[''a''], [''b'']]"
    by code_simp
  then obtain words where w: "?r = Inr words"
      "map (\<lambda>w. map content_c (content_w w)) words = [[''a''], [''b'']]"
    by (auto split: sum.splits)
  have "\<forall>w \<in> set words. length (content_w w) \<ge> 1"
    by (rule inst [THEN conjunct1, THEN spec, THEN mp, OF w(1)])
  then have first: "\<exists>words. ?r = Inr words
     \<and> map (\<lambda>w. map content_c (content_w w)) words = [[''a''], [''b'']]
     \<and> list_all (\<lambda>w. length (content_w w) \<ge> 1) words"
    using w by (intro exI [of _ words]) (simp add: list_all_iff)
  have agree: "\<forall>boxes. boxes \<noteq> [] \<longrightarrow> firstBoxOrError boxes = firstBoxOrZero boxes"
    by (auto simp: firstBoxOrError_def firstBoxOrZero_def split: list.splits)
  have sample: "list_all (\<lambda>boxes. boxes = [] \<or> firstBoxOrError boxes = firstBoxOrZero boxes)
        [[], [\<lparr>left = Some 1, top_b = Some 2, width = Some 3, height = Some 4\<rparr>]]"
    by (simp add: firstBoxOrError_def firstBoxOrZero_def)
  have same: "?r = breakLineIntoWords parseDecimal (\<lambda>c. c) sameNameAndSize arial12 firstBoxOrZero
              ?texts '','' (Some 100) (Some 1)"
    by (rule inst [THEN conjunct2, THEN mp, OF agree])
  from first sample same show ?thesis by (intro conjI)
qed

subsection \<open>Page numbers after extraction\<close>

lemma renumbered_pages:
  "k < length ps \<Longrightarrow>
   pageNumber (map (\<lambda>(page, index). page\<lparr>pageNumber := Some (real index + 1)\<rparr>)
                (zip ps [0..<length ps]) ! k) = Some (real (k + 1))"
  by simp

lemma extractFile_step:
  assumes "extractPages inputFile (if totalPages \<noteq> Null
             then Some (pagesToExtract pageIndex maxPages totalPages) else None) = Inr xmlOutputFile"
    and "xmlParser xmlOutputFile = Inr json" and "jsParser json = Inr doc"
  shows "extractFile extractPages xmlParser jsParser inputFile pageIndex maxPages totalPages document =
     (let document2 = document\<lparr>pages :=
                            map (\<lambda>(page, index). page\<lparr>pageNumber := Some (real index + 1)\<rparr>)
                              (zip (pages document @ pages doc) [0..<length (pages document @ pages doc)])\<rparr>
      in if (case totalPages of Null \<Rightarrow> False | NaN \<Rightarrow> False | Num n \<Rightarrow> n > pageIndex * int maxPages)
         then extractFile extractPages xmlParser jsParser inputFile (pageIndex + 1) maxPages
                               totalPages document2
         else Some (Inr document2))"
  by (subst extractFile.simps) (simp add: assms Let_def split: totalPagesValue.splits)

lemma extractFile_fail:
  assumes "extractPages inputFile (if totalPages \<noteq> Null
             then Some (pagesToExtract pageIndex maxPages totalPages) else None) = Inl e
           \<or> (\<exists>x. extractPages inputFile (if totalPages \<noteq> Null
             then Some (pagesToExtract pageIndex maxPages totalPages) else None) = Inr x
                \<and> (xmlParser x = Inl e \<or> (\<exists>j. xmlParser x = Inr j \<and> jsParser j = Inl e)))"
  shows "extractFile extractPages xmlParser jsParser inputFile pageIndex maxPages totalPages document = Some (Inl e)"
  using assms by (subst extractFile.simps) (auto simp: Let_def)

lemma extractFile_returns_aux:
  assumes "0 < maxPages"
  shows "\<exists>r. extractFile extractPages xmlParser jsParser inputFile pageIndex maxPages totalPages document = Some r
             \<and> (\<forall>d. r = Inr d \<longrightarrow> consecutive d)"
proof (induction "case totalPages of Num n \<Rightarrow> nat (n - pageIndex * int maxPages) | _ \<Rightarrow> 0"
         arbitrary: pageIndex document rule: less_induct)
  case less
  let ?arg = "if totalPages \<noteq> Null then Some (pagesToExtract pageIndex maxPages totalPages) else None"
  let ?lhs = "extractFile extractPages xmlParser jsParser inputFile pageIndex maxPages totalPages document"
  consider (fail) e where "?lhs = Some (Inl e)"
    | (ok) x j doc where "extractPages inputFile ?arg = Inr x" "xmlParser x = Inr j" "jsParser j = Inr doc"
  proof (cases "extractPages inputFile ?arg")
    case (Inl e)
    then have "?lhs = Some (Inl e)" by (intro extractFile_fail) simp
    then show ?thesis using fail by blast
  next
    case x: (Inr x)
    show ?thesis
    proof (cases "xmlParser x")
      case (Inl e)
      then have "?lhs = Some (Inl e)" using x by (intro extractFile_fail) simp
      then show ?thesis using fail by blast
    next
      case j: (Inr j)
      show ?thesis
      proof (cases "jsParser j")
        case (Inl e)
        then have "?lhs = Some (Inl e)" using x j by (intro extractFile_fail) simp
        then show ?thesis using fail by blast
      next
        case (Inr doc)
        then show ?thesis using x j ok by blast
      qed
    qed
  qed
  then show ?case
  proof cases
    case fail
    then show ?thesis by simp
  next
    case ok
    let ?d2 = "document\<lparr>pages :=
                            map (\<lambda>(page, index). page\<lparr>pageNumber := Some (real index + 1)\<rparr>)
                              (zip (pages document @ pages doc) [0..<length (pages document @ pages doc)])\<rparr>"
    have d2: "consecutive ?d2"
      unfolding consecutive_def using renumbered_pages [of _ "pages document @ pages doc"] by simp
    have step: "?lhs =
        (if (case totalPages of Null \<Rightarrow> False | NaN \<Rightarrow> False | Num n \<Rightarrow> n > pageIndex * int maxPages)
         then extractFile extractPages xmlParser jsParser inputFile (pageIndex + 1) maxPages
                               totalPages ?d2
         else Some (Inr ?d2))"
      using extractFile_step [where extractPages = extractPages and inputFile = inputFile
          and totalPages = totalPages and pageIndex = pageIndex and maxPages = maxPages
          and xmlParser = xmlParser and jsParser = jsParser and document = document, OF ok]
      by (simp add: Let_def)
    show ?thesis
    proof (cases "case totalPages of Null \<Rightarrow> False | NaN \<Rightarrow> False | Num n \<Rightarrow> n > pageIndex * int maxPages")
      case False
      then have "?lhs = Some (Inr ?d2)" using step by simp
      then show ?thesis using d2 by simp
    next
      case True
      then obtain n where n: "totalPages = Num n" "n > pageIndex * int maxPages"
        by (cases totalPages) auto
      have "(case totalPages of Num n \<Rightarrow> nat (n - (pageIndex + 1) * int maxPages) | _ \<Rightarrow> 0)
            < (case totalPages of Num n \<Rightarrow> nat (n - pageIndex * int maxPages) | _ \<Rightarrow> 0)"
        using n assms by (simp add: algebra_simps)
      from less [OF this, of ?d2] True step show ?thesis by simp
    qed
  qed
qed

text \<open>
  C7. With a positive batch size (the caller passes 500), \<open>extractFile\<close> returns for
  every page count, every starting batch and every behaviour of the external tools, and
  when it resolves with a document, the k-th page of the document has page number k.
\<close>

theorem extractFile_pages_consecutive:
  assumes "0 < maxPages"
  shows "\<exists>r. extractFile extractPages xmlParser jsParser inputFile pageIndex maxPages totalPages document = Some r
             \<and> (\<forall>d. r = Inr d \<longrightarrow> consecutive d)"
  using assms by (rule extractFile_returns_aux)

theorem extractFile_pages_consecutive_witness:
  "(0::nat) < 2
   \<and> (\<exists>d. extractFile (\<lambda>file ps. Inr (case ps of None \<Rightarrow> [] | Some s \<Rightarrow> s)) Inr
             (\<lambda>json. Inr \<lparr>pages = map (\<lambda>p. \<lparr>pageNumber = Some 7, elements = [],
                                               box_p = \<lparr>left = Some 0, top_b = Some 0,
                                                        width = Some 595, height = Some 842\<rparr>\<rparr>)
                                       (js_split json '',''),
                          inputFile_d = None\<rparr>)
             ''in.pdf'' 1 2 (Num 3) \<lparr>pages = [], inputFile_d = None\<rparr> = Some (Inr d)
          \<and> map pageNumber (pages d) = [Some 1, Some 2, Some 3]
          \<and> consecutive d)"
proof -
  let ?r = "extractFile (\<lambda>file ps. Inr (case ps of None \<Rightarrow> [] | Some s \<Rightarrow> s)) Inr
             (\<lambda>json. Inr \<lparr>pages = map (\<lambda>p. \<lparr>pageNumber = Some 7, elements = [],
                                               box_p = \<lparr>left = Some 0, top_b = Some 0,
                                                        width = Some 595, height = Some 842\<rparr>\<rparr>)
                                       (js_split json '',''),
                          inputFile_d = None\<rparr>)
             ''in.pdf'' 1 2 (Num 3) \<lparr>pages = [], inputFile_d = None\<rparr>"
  have "case ?r of Some (Inr d) \<Rightarrow> map pageNumber (pages d) = [Some 1, Some 2, Some 3] | _ \<Rightarrow> False"
    by (simp add: extractFile.simps pagesToExtract_def showInt_def js_split_def upt_rec Let_def)
  then obtain d where d: "?r = Some (Inr d)" "map pageNumber (pages d) = [Some 1, Some 2, Some 3]"
    by (auto split: option.splits sum.splits)
  have pos: "(0::nat) < 2" by simp
  from extractFile_pages_consecutive [OF pos] d(1) have "consecutive d"
    by (metis option.inject)
  with d pos show ?thesis by (intro conjI exI [of _ d])
qed

subsection \<open>The most common font\<close>

lemma fonts_copy: "foldl (\<lambda>a b. a @ [b]) acc theFonts = acc @ theFonts"
  by (induction theFonts arbitrary: acc) simp_all

text \<open>
  After every font, each basket is the list of the fonts seen so far that are equal to its
  first font, and every font seen so far is equal to the first font of some basket.
\<close>

lemma baskets_invariant:
  assumes "isEquivalence isEqual"
  shows "(\<forall>b \<in> set (foldl (addToBaskets isEqual) [] fonts).
            b \<noteq> [] \<and> b = filter (isEqual (b ! 0)) fonts)
         \<and> (\<forall>f \<in> set fonts. \<exists>b \<in> set (foldl (addToBaskets isEqual) [] fonts). b \<noteq> [] \<and> isEqual (b ! 0) f)"
proof (induction fonts rule: rev_induct)
  case Nil
  then show ?case by simp
next
  case (snoc f fonts)
  let ?B = "foldl (addToBaskets isEqual) [] fonts"
  have refl: "\<And>x. isEqual x x" and sym: "\<And>x y. isEqual x y \<Longrightarrow> isEqual y x"
    and trans: "\<And>x y z. isEqual x y \<Longrightarrow> isEqual y z \<Longrightarrow> isEqual x z"
    using assms unfolding isEquivalence_def by blast+
  have inv1: "\<And>b. b \<in> set ?B \<Longrightarrow> b \<noteq> [] \<and> b = filter (isEqual (b ! 0)) fonts"
    and inv2: "\<And>g. g \<in> set fonts \<Longrightarrow> \<exists>b \<in> set ?B. b \<noteq> [] \<and> isEqual (b ! 0) g"
    using snoc.IH by blast+
  have step: "foldl (addToBaskets isEqual) [] (fonts @ [f]) = addToBaskets isEqual ?B f" by simp
  show ?case
  proof (cases "\<exists>basket \<in> set ?B. length basket > 0 \<and> isEqual (basket ! 0) f")
    case True
    then have new: "addToBaskets isEqual ?B f =
        map (\<lambda>basket. if length basket > 0 \<and> isEqual (basket ! 0) f then basket @ [f] else basket) ?B"
      by (simp add: addToBaskets_def Let_def)
    have a: "\<forall>b \<in> set (addToBaskets isEqual ?B f). b \<noteq> [] \<and> b = filter (isEqual (b ! 0)) (fonts @ [f])"
    proof
      fix b assume "b \<in> set (addToBaskets isEqual ?B f)"
      then obtain b0 where b0: "b0 \<in> set ?B"
          "b = (if length b0 > 0 \<and> isEqual (b0 ! 0) f then b0 @ [f] else b0)"
        unfolding new by auto
      from inv1 [OF b0(1)] have ne: "b0 \<noteq> []" and eq: "b0 = filter (isEqual (b0 ! 0)) fonts" by simp_all
      show "b \<noteq> [] \<and> b = filter (isEqual (b ! 0)) (fonts @ [f])"
      proof (cases "isEqual (b0 ! 0) f")
        case True
        then have "b = b0 @ [f]" using b0(2) ne by simp
        moreover have "(b0 @ [f]) ! 0 = b0 ! 0" using ne by (simp add: nth_append)
        ultimately show ?thesis using True eq by simp
      next
        case False
        then have "b = b0" using b0(2) by simp
        then show ?thesis using False eq ne by simp
      qed
    qed
    have b: "\<forall>g \<in> set (fonts @ [f]). \<exists>b \<in> set (addToBaskets isEqual ?B f). b \<noteq> [] \<and> isEqual (b ! 0) g"
    proof
      fix g assume g: "g \<in> set (fonts @ [f])"
      have "\<exists>b0 \<in> set ?B. b0 \<noteq> [] \<and> isEqual (b0 ! 0) g"
        using g inv2 True by auto
      then obtain b0 where b0: "b0 \<in> set ?B" "b0 \<noteq> []" "isEqual (b0 ! 0) g" by blast
      let ?b = "if length b0 > 0 \<and> isEqual (b0 ! 0) f then b0 @ [f] else b0"
      have "?b \<in> set (addToBaskets isEqual ?B f)" unfolding new using b0(1) by simp
      moreover have "?b \<noteq> []" using b0(2) by simp
      moreover have "?b ! 0 = b0 ! 0" using b0(2) by (simp add: nth_append)
      ultimately show "\<exists>b \<in> set (addToBaskets isEqual ?B f). b \<noteq> [] \<and> isEqual (b ! 0) g"
        using b0(3) by (intro bexI [of _ "?b"]) simp_all
    qed
    show ?thesis unfolding step using a b by blast
  next
    case False
    then have none: "\<And>b0. b0 \<in> set ?B \<Longrightarrow> \<not> isEqual (b0 ! 0) f" using inv1 by auto
    have "map (\<lambda>basket. if length basket > 0 \<and> isEqual (basket ! 0) f then basket @ [f] else basket) ?B = ?B"
      using none by (simp add: map_idI)
    then have new: "addToBaskets isEqual ?B f = ?B @ [[f]]"
      using False by (simp add: addToBaskets_def Let_def)
    have nof: "\<And>g. g \<in> set fonts \<Longrightarrow> \<not> isEqual f g"
    proof
      fix g assume "g \<in> set fonts" "isEqual f g"
      then obtain b0 where "b0 \<in> set ?B" "isEqual (b0 ! 0) g" using inv2 by blast
      then have "isEqual (b0 ! 0) f" using \<open>isEqual f g\<close> sym trans by blast
      then show False using none \<open>b0 \<in> set ?B\<close> by blast
    qed
    then have single: "filter (isEqual f) (fonts @ [f]) = [f]" using refl by (simp add: filter_empty_conv)
    have a: "\<forall>b \<in> set (?B @ [[f]]). b \<noteq> [] \<and> b = filter (isEqual (b ! 0)) (fonts @ [f])"
    proof
      fix b assume "b \<in> set (?B @ [[f]])"
      then consider "b \<in> set ?B" | "b = [f]" by auto
      then show "b \<noteq> [] \<and> b = filter (isEqual (b ! 0)) (fonts @ [f])"
      proof cases
        case 1
        then show ?thesis using inv1 [OF 1] none [OF 1] by simp
      next
        case 2
        then show ?thesis using single by simp
      qed
    qed
    have b: "\<forall>g \<in> set (fonts @ [f]). \<exists>b \<in> set (?B @ [[f]]). b \<noteq> [] \<and> isEqual (b ! 0) g"
    proof
      fix g assume "g \<in> set (fonts @ [f])"
      then consider "g \<in> set fonts" | "g = f" by auto
      then show "\<exists>b \<in> set (?B @ [[f]]). b \<noteq> [] \<and> isEqual (b ! 0) g"
      proof cases
        case 1
        then show ?thesis using inv2 by auto
      next
        case 2
        then show ?thesis using refl by auto
      qed
    qed
    show ?thesis unfolding step new using a b by blast
  qed
qed

lemma sort_key_head:
  fixes k :: "'a \<Rightarrow> int"
  assumes "xs \<noteq> []"
  shows "sort_key k xs \<noteq> [] \<and> sort_key k xs ! 0 \<in> set xs \<and> (\<forall>y \<in> set xs. k (sort_key k xs ! 0) \<le> k y)"
proof -
  let ?s = "sort_key k xs"
  have ne: "?s \<noteq> []" using assms by (metis length_0_conv length_sort)
  then obtain h t where ht: "?s = h # t" by (cases ?s) auto
  have "sorted (map k ?s)" by (rule sorted_sort_key)
  then have "\<forall>y \<in> set ?s. k h \<le> k y" unfolding ht by auto
  moreover have "set ?s = set xs" by simp
  moreover have "h \<in> set ?s" unfolding ht by simp
  ultimately show ?thesis using ne ht by auto
qed

text \<open>
  C8. When \<open>Font.isEqual\<close> is an equivalence relation, \<open>getMostCommonFont\<close> returns
  \<open>Font.undefinedFont\<close> for the empty list, and for a non-empty list a font of the list
  whose class (the fonts of the list equal to it) is at least as large as the class of every
  font of the list. It is a function of its input alone.
\<close>

theorem getMostCommonFont_most_common:
  assumes "isEquivalence isEqual"
  shows "getMostCommonFont isEqual undefinedFont [] = undefinedFont
         \<and> (theFonts \<noteq> [] \<longrightarrow>
              getMostCommonFont isEqual undefinedFont theFonts \<in> set theFonts
              \<and> (\<forall>f \<in> set theFonts.
                    length (filter (isEqual f) theFonts)
                    \<le> length (filter (isEqual (getMostCommonFont isEqual undefinedFont theFonts)) theFonts)))"
proof (intro conjI impI)
  show "getMostCommonFont isEqual undefinedFont [] = undefinedFont"
    by (simp add: getMostCommonFont_def)
next
  assume ne: "theFonts \<noteq> []"
  let ?B = "foldl (addToBaskets isEqual) [] theFonts"
  let ?S = "sort_key (\<lambda>basket. - int (length basket)) ?B"
  have sym: "\<And>x y. isEqual x y \<Longrightarrow> isEqual y x"
    and trans: "\<And>x y z. isEqual x y \<Longrightarrow> isEqual y z \<Longrightarrow> isEqual x z"
    using assms unfolding isEquivalence_def by blast+
  have inv1: "\<And>b. b \<in> set ?B \<Longrightarrow> b \<noteq> [] \<and> b = filter (isEqual (b ! 0)) theFonts"
    and inv2: "\<And>g. g \<in> set theFonts \<Longrightarrow> \<exists>b \<in> set ?B. b \<noteq> [] \<and> isEqual (b ! 0) g"
    using baskets_invariant [OF assms, of theFonts] by blast+
  obtain g where "g \<in> set theFonts" using ne by (cases theFonts) auto
  then obtain b1 where "b1 \<in> set ?B" using inv2 by blast
  then have Bne: "?B \<noteq> []" by (metis empty_iff empty_set)
  from sort_key_head [OF Bne, of "\<lambda>basket. - int (length basket)"]
  have S: "?S \<noteq> []" "?S ! 0 \<in> set ?B" "\<And>y. y \<in> set ?B \<Longrightarrow> length y \<le> length (?S ! 0)"
    by auto
  have top: "?S ! 0 \<noteq> []" "?S ! 0 = filter (isEqual (?S ! 0 ! 0)) theFonts"
    using inv1 [OF S(2)] by blast+
  have res: "getMostCommonFont isEqual undefinedFont theFonts = ?S ! 0 ! 0"
    using S(1) top(1) by (simp add: getMostCommonFont_def fonts_copy)
  have "?S ! 0 ! 0 \<in> set (?S ! 0)" using top(1) by simp
  then have mem: "?S ! 0 ! 0 \<in> set theFonts" using top(2) by (metis filter_is_subset subsetD)
  have maxi: "length (filter (isEqual f) theFonts) \<le> length (filter (isEqual (?S ! 0 ! 0)) theFonts)"
    if f: "f \<in> set theFonts" for f
  proof -
    obtain b where b: "b \<in> set ?B" "b \<noteq> []" "isEqual (b ! 0) f" using inv2 [OF f] by blast
    have "filter (isEqual f) theFonts = filter (isEqual (b ! 0)) theFonts"
    proof (rule filter_cong [OF refl])
      fix x show "isEqual f x = isEqual (b ! 0) x" using b(3) sym trans by blast
    qed
    also have "\<dots> = b" using inv1 [OF b(1)] by simp
    finally have "length (filter (isEqual f) theFonts) = length b" by simp
    also have "\<dots> \<le> length (?S ! 0)" using S(3) [OF b(1)] .
    also have "\<dots> = length (filter (isEqual (?S ! 0 ! 0)) theFonts)" using top(2) by simp
    finally show ?thesis .
  qed
  show "getMostCommonFont isEqual undefinedFont theFonts \<in> set theFonts"
    unfolding res by (rule mem)
  show "\<forall>f \<in> set theFonts.
                    length (filter (isEqual f) theFonts)
                    \<le> length (filter (isEqual (getMostCommonFont isEqual undefinedFont theFonts)) theFonts)"
    unfolding res using maxi by blast
qed

theorem getMostCommonFont_most_common_witness:
  "isEquivalence sameNameAndSize
   \<and> getMostCommonFont sameNameAndSize arial12 [arial12, times10, times10red] = times10
   \<and> times10 \<in> set [arial12, times10, times10red]
   \<and> list_all (\<lambda>f. length (filter (sameNameAndSize f) [arial12, times10, times10red])
                     \<le> length (filter (sameNameAndSize times10) [arial12, times10, times10red]))
        [arial12, times10, times10red]"
proof -
  have eqv: "isEquivalence sameNameAndSize"
    by (simp add: isEquivalence_def sameNameAndSize_def)
  have res: "getMostCommonFont sameNameAndSize arial12 [arial12, times10, times10red] = times10"
    by (simp add: getMostCommonFont_def addToBaskets_def sameNameAndSize_def
        arial12_def times10_def times10red_def)
  have ne: "[arial12, times10, times10red] \<noteq> []" by simp
  from getMostCommonFont_most_common [OF eqv, of arial12 "[arial12, times10, times10red]",
      THEN conjunct2, THEN mp, OF ne]
  have "times10 \<in> set [arial12, times10, times10red]"
    and "\<forall>f \<in> set [arial12, times10, times10red].
           length (filter (sameNameAndSize f) [arial12, times10, times10red])
           \<le> length (filter (sameNameAndSize times10) [arial12, times10, times10red])"
    unfolding res by blast+
  then show ?thesis using eqv res by (simp only: list_all_iff)
qed

subsection \<open>The promise of extractImagesAndFonts\<close>

lemma settle_simps [simp]:
  "settle Pending v = v" "settle (Rejected r) v = Rejected r" "settle (Resolved s) v = Resolved s"
  by (simp_all add: settle_def)




subsection \<open>Table reconstruction: boundaries and spans\<close>

lemma dedup_subset: "set (dedup tol xs) \<subseteq> set xs"
  by (induction tol xs rule: dedup.induct) auto

lemma dedup_Nil_iff [simp]: "dedup tol xs = [] \<longleftrightarrow> xs = []"
  by (induction tol xs rule: dedup.induct) auto

lemma hd_dedup [simp]: "hd (dedup tol (x # xs)) = x"
  by (induction tol "x # xs" arbitrary: xs rule: dedup.induct) auto

lemma dedup_increasing:
  "0 \<le> tol \<Longrightarrow> sorted xs \<Longrightarrow> sorted_wrt (\<lambda>a b. tol < b - a) (dedup tol xs)"
proof (induction tol xs rule: dedup.induct)
  case (3 tol x y ys)
  show ?case
  proof (cases "y - x \<le> tol")
    case True
    then show ?thesis using 3 by simp
  next
    case False
    have "\<forall>z \<in> set (dedup tol (y # ys)). tol < z - x"
    proof
      fix z assume "z \<in> set (dedup tol (y # ys))"
      then have "z \<in> set (y # ys)" using dedup_subset by blast
      then have "y \<le> z" using 3(4) by auto
      then show "tol < z - x" using False by linarith
    qed
    then show ?thesis using False 3 by simp
  qed
qed simp_all

lemma boundaries_increasing: "0 \<le> tol \<Longrightarrow> sorted_wrt (\<lambda>a b. tol < b - a) (boundaries tol vs)"
  unfolding boundaries_def by (rule dedup_increasing) simp_all

lemma boundaries_strict:
  assumes "0 \<le> tol"
  shows "sorted_wrt (<) (boundaries tol vs)"
proof (rule sorted_wrt_mono_rel [OF _ boundaries_increasing [OF assms]])
  fix x y :: real
  assume "tol < y - x"
  then show "x < y" using assms by linarith
qed

lemma intervals_nth:
  "k < length bs - 1 \<Longrightarrow> intervals bs ! k = (bs ! k, bs ! Suc k)"
  by (simp add: intervals_def nth_tl)

lemma length_intervals [simp]: "length (intervals bs) = length bs - 1"
  by (simp add: intervals_def)

lemma intervals_bounds:
  assumes "sorted_wrt (<) bs" and "iv \<in> set (intervals bs)"
  shows "fst iv < snd iv \<and> hd bs \<le> fst iv \<and> snd iv \<le> last bs"
proof -
  from assms(2) obtain k where k: "k < length bs - 1" "iv = (bs ! k, bs ! Suc k)"
    by (metis in_set_conv_nth length_intervals intervals_nth)
  then have sk: "Suc k < length bs" by simp
  have s: "sorted bs" using assms(1) by (simp add: strict_sorted_iff)
  have "bs ! k < bs ! Suc k" using assms(1) sk by (simp add: sorted_wrt_nth_less)
  moreover have "bs ! 0 \<le> bs ! k" using s sk by (simp add: sorted_nth_mono)
  moreover have "bs ! Suc k \<le> bs ! (length bs - 1)" using s sk by (simp add: sorted_nth_mono)
  moreover have "hd bs = bs ! 0" using sk by (cases bs) simp_all
  moreover have "last bs = bs ! (length bs - 1)" using sk by (cases bs) (simp_all add: last_conv_nth)
  ultimately show ?thesis using k(2) by simp
qed

lemma covers_inside: "lo \<le> fst iv \<Longrightarrow> snd iv \<le> hi \<Longrightarrow> fst iv < snd iv \<Longrightarrow> covers lo hi iv"
  by (simp add: covers_def min_def max_def)

lemma spanCount_full:
  assumes "sorted_wrt (<) bs" and "lo \<le> hd bs" and "last bs \<le> hi"
  shows "spanCount lo hi bs = length bs - 1"
proof -
  have "covers lo hi iv" if "iv \<in> set (intervals bs)" for iv
  proof -
    from intervals_bounds [OF assms(1) that]
    have "fst iv < snd iv" "hd bs \<le> fst iv" "snd iv \<le> last bs" by simp_all
    then show ?thesis using assms(2,3) by (intro covers_inside) linarith+
  qed
  then have "filter (covers lo hi) (intervals bs) = intervals bs" by simp
  then show ?thesis by (simp add: spanCount_def)
qed

subsection \<open>Rows without active rowspans, and the full-width cell\<close>

lemma advance_Nil [simp]: "advance [] = []"
  by (simp add: advance_def)

lemma claimed_Nil [simp]: "\<not> claimed [] col"
  by (simp add: claimed_def)

lemma continuationWidth_Nil [simp]: "continuationWidth [] = 0"
  by (simp add: continuationWidth_def)

lemma buildRow_no_claims:
  assumes "\<forall>raw \<in> set rawRow. rowspanOf R (boundingBox raw) \<le> 1"
  shows "snd (buildRow C R [] rawRow) = []"
proof -
  have "filter (\<lambda>c. rowspan c > 1) (map (toCell C R) rawRow) = []"
    using assms by (auto simp: filter_empty_conv toCell_def)
  then show ?thesis by (simp add: buildRow_def Let_def claimsOf_def)
qed

lemma buildRows_nth_no_claims:
  assumes "i < length grid"
    and "\<forall>k < i. \<forall>raw \<in> set (grid ! k). rowspanOf R (boundingBox raw) \<le> 1"
  shows "buildRows C R [] grid ! i = fst (buildRow C R [] (grid ! i))"
  using assms
proof (induction grid arbitrary: i)
  case Nil
  then show ?case by simp
next
  case (Cons row rest)
  show ?case
  proof (cases i)
    case 0
    then show ?thesis by simp
  next
    case (Suc i')
    have "\<forall>raw \<in> set row. rowspanOf R (boundingBox raw) \<le> 1"
      using Cons.prems(2) Suc by fastforce
    then have none: "snd (buildRow C R [] row) = []" by (rule buildRow_no_claims)
    have "\<forall>k < i'. \<forall>raw \<in> set (rest ! k). rowspanOf R (boundingBox raw) \<le> 1"
      using Cons.prems(2) Suc by fastforce
    moreover have "i' < length rest" using Cons.prems(1) Suc by simp
    ultimately have "buildRows C R [] rest ! i' = fst (buildRow C R [] (rest ! i'))"
      by (rule Cons.IH [rotated])
    then show ?thesis using Suc none by simp
  qed
qed

lemma length_buildRows [simp]: "length (buildRows C R active grid) = length grid"
  by (induction grid arbitrary: active) simp_all

lemma reconstruct_Some:
  assumes "reconstruct tol grid = Some t"
  shows "rows t = buildRows (columnBoundaries tol grid) (rowBoundaries tol grid) [] grid
         \<and> 0 < length (columnBoundaries tol grid) - 1 \<and> grid \<noteq> []"
  using assms by (auto simp: reconstruct_def Let_def split: list.splits if_splits)



subsection \<open>The row sum\<close>

lemma pendingWidth_0: "validClaims active \<Longrightarrow> pendingWidth active 0 = continuationWidth active"
proof -
  assume "validClaims active"
  then have "filter (\<lambda>cl. snd (snd cl) > 0) active = active"
    by (auto simp: validClaims_def filter_id_conv Suc_le_eq)
  then show ?thesis by (simp add: pendingWidth_def continuationWidth_def)
qed

lemma pendingWidth_append [simp]:
  "pendingWidth (xs @ ys) i = pendingWidth xs i + pendingWidth ys i"
  by (simp add: pendingWidth_def)

lemma pendingWidth_advance: "pendingWidth (advance active) i = pendingWidth active (Suc i)"
proof -
  have "filter (\<lambda>cl. snd (snd cl) > i) (advance active)
        = map (\<lambda>cl. (fst cl, fst (snd cl), snd (snd cl) - 1)) (filter (\<lambda>cl. snd (snd cl) > Suc i) active)"
    unfolding advance_def filter_map filter_filter
    by (rule arg_cong [where f = "map _"], rule filter_cong) auto
  then show ?thesis by (simp add: pendingWidth_def comp_def)
qed

lemma pendingWidth_claimsOf:
  "pendingWidth (claimsOf C cells) i = sum_list (map colspan (filter (\<lambda>c. rowspan c > Suc i) cells))"
proof -
  have "filter (\<lambda>cl. snd (snd cl) > i) (claimsOf C cells)
        = map (\<lambda>c. (columnOf C (box_t c), colspan c, rowspan c - 1)) (filter (\<lambda>c. rowspan c > Suc i) cells)"
    unfolding claimsOf_def filter_map filter_filter
    by (rule arg_cong [where f = "map _"], rule filter_cong) auto
  then show ?thesis by (simp add: pendingWidth_def comp_def)
qed

lemma validClaims_advance: "validClaims (advance active)"
  by (auto simp: validClaims_def advance_def)

lemma validClaims_claimsOf: "validClaims (claimsOf C cells)"
  by (auto simp: validClaims_def claimsOf_def)

lemma buildRow_cases:
  "(sum_list (map colspan (fst (buildRow C R active cells))) + continuationWidth active = length C - 1
      \<and> snd (buildRow C R active cells) = advance active @ claimsOf C (fst (buildRow C R active cells)))
   \<or> (degradedRow (fst (buildRow C R active cells)) \<and> snd (buildRow C R active cells) = advance active)"
  by (auto simp: buildRow_def Let_def degradedRow_def degradedCell_def)

lemma validClaims_buildRow: "validClaims (snd (buildRow C R active cells))"
proof -
  have "validClaims (advance active @ claimsOf C (fst (buildRow C R active cells)))"
    using validClaims_advance [of active] validClaims_claimsOf [of C "fst (buildRow C R active cells)"]
    by (auto simp: validClaims_def)
  then show ?thesis
    using buildRow_cases [of C R active cells] validClaims_advance [of active] by auto
qed

lemma degradedRow_no_claims:
  "degradedRow r \<Longrightarrow> sum_list (map colspan (filter (\<lambda>c. rowspan c > Suc i) r)) = 0"
  by (auto simp: degradedRow_def filter_empty_conv)

lemma continuationInto_Cons:
  "continuationInto (r # rs) (Suc i)
   = sum_list (map colspan (filter (\<lambda>c. rowspan c > Suc i) r)) + continuationInto rs i"
proof -
  have "[0..<Suc i] = 0 # map Suc [0..<i]"
    by (simp add: upt_conv_Cons map_Suc_upt del: upt_Suc)
  then show ?thesis
    unfolding continuationInto_def by (simp add: comp_def del: upt_Suc)
qed

lemma pending_after_row:
  "pendingWidth (snd (buildRow C R active cells)) i
   = pendingWidth active (Suc i)
     + sum_list (map colspan (filter (\<lambda>c. rowspan c > Suc i) (fst (buildRow C R active cells))))"
  using buildRow_cases [of C R active cells]
  by (auto simp: pendingWidth_advance pendingWidth_claimsOf degradedRow_no_claims)

lemma buildRows_row_sum:
  assumes "validClaims active" and "i < length grid"
  shows "sum_list (map colspan (buildRows C R active grid ! i)) + pendingWidth active i
           + continuationInto (buildRows C R active grid) i = length C - 1
         \<or> degradedRow (buildRows C R active grid ! i)"
  using assms
proof (induction grid arbitrary: active i)
  case Nil
  then show ?case by simp
next
  case (Cons cells rest)
  show ?case
  proof (cases i)
    case 0
    then show ?thesis
      using buildRow_cases [of C R active cells] pendingWidth_0 [OF Cons.prems(1)]
      by (auto simp: continuationInto_def)
  next
    case (Suc i')
    let ?a = "snd (buildRow C R active cells)"
    have "i' < length rest" using Cons.prems(2) Suc by simp
    from Cons.IH [OF validClaims_buildRow this, of C R active cells]
    show ?thesis
      unfolding Suc by (simp add: continuationInto_Cons pending_after_row ac_simps)
  qed
qed

lemma pendingWidth_Nil [simp]: "pendingWidth [] i = 0"
  by (simp add: pendingWidth_def)




subsection \<open>A cell with a rowspan is recorded once\<close>

lemma buildRow_unclaimed:
  "d \<in> set (fst (buildRow C R active cells)) \<Longrightarrow> \<not> claimed active (columnOf C (box_t d))"
  by (auto simp: buildRow_def Let_def toCell_def degradedCell_def split: if_splits)

lemma advance_mem:
  "cl \<in> set active \<Longrightarrow> snd (snd cl) > Suc i \<Longrightarrow>
   (fst cl, fst (snd cl), snd (snd cl) - 1) \<in> set (advance active)"
proof -
  assume a: "cl \<in> set active" "snd (snd cl) > Suc i"
  then have "cl \<in> set (filter (\<lambda>cl. snd (snd cl) > 1) active)" by simp
  then show ?thesis unfolding advance_def by (simp only: set_map) (rule imageI)
qed

lemma advance_subset: "set (advance active) \<subseteq> set (snd (buildRow C R active cells))"
  using buildRow_cases [of C R active cells] by auto

lemma claimsOf_mem:
  assumes "c \<in> set (fst (buildRow C R active cells))" and "rowspan c > Suc i"
  shows "(columnOf C (box_t c), colspan c, rowspan c - 1) \<in> set (snd (buildRow C R active cells))"
proof -
  have "\<not> (colspan c = 1 \<and> rowspan c = 1)" using assms(2) by simp
  then have "\<not> degradedRow (fst (buildRow C R active cells))"
    using assms(1) unfolding degradedRow_def by blast
  then have "snd (buildRow C R active cells) = advance active @ claimsOf C (fst (buildRow C R active cells))"
    using buildRow_cases [of C R active cells] by auto
  moreover have "c \<in> set (filter (\<lambda>c. rowspan c > 1) (fst (buildRow C R active cells)))"
    using assms by simp
  then have "(columnOf C (box_t c), colspan c, rowspan c - 1) \<in> set (claimsOf C (fst (buildRow C R active cells)))"
    unfolding claimsOf_def by (simp only: set_map) (rule imageI)
  ultimately show ?thesis by simp
qed

lemma buildRows_no_reemit:
  assumes "i < length grid" and "d \<in> set (buildRows C R active grid ! i)"
  shows "(\<forall>cl \<in> set active. snd (snd cl) > i \<longrightarrow>
            \<not> inColumns (fst cl) (fst (snd cl)) (columnOf C (box_t d)))
         \<and> (\<forall>j < i. \<forall>c \<in> set (buildRows C R active grid ! j). j + rowspan c > i \<longrightarrow>
            \<not> inColumns (columnOf C (box_t c)) (colspan c) (columnOf C (box_t d)))"
  using assms
proof (induction grid arbitrary: active i)
  case Nil
  then show ?case by simp
next
  case (Cons cells rest)
  show ?case
  proof (cases i)
    case 0
    then have "\<not> claimed active (columnOf C (box_t d))"
      using Cons.prems(2) buildRow_unclaimed by simp
    then show ?thesis using 0 by (auto simp: claimed_def inColumns_def)
  next
    case (Suc i')
    let ?a = "snd (buildRow C R active cells)" and ?r0 = "fst (buildRow C R active cells)"
    have i': "i' < length rest" using Cons.prems(1) Suc by simp
    have d: "d \<in> set (buildRows C R ?a rest ! i')" using Cons.prems(2) Suc by simp
    note IH = Cons.IH [OF i' d]
    have part1: "\<not> inColumns (fst cl) (fst (snd cl)) (columnOf C (box_t d))"
      if "cl \<in> set active" "snd (snd cl) > Suc i'" for cl
    proof -
      have "(fst cl, fst (snd cl), snd (snd cl) - 1) \<in> set ?a"
        using advance_mem [OF that] advance_subset by blast
      moreover have "snd (snd cl) - 1 > i'" using that(2) by simp
      ultimately show ?thesis using IH by fastforce
    qed
    have part2: "\<not> inColumns (columnOf C (box_t c)) (colspan c) (columnOf C (box_t d))"
      if "j < Suc i'" "c \<in> set (buildRows C R active (cells # rest) ! j)" "j + rowspan c > Suc i'" for j c
    proof (cases j)
      case 0
      then have "c \<in> set ?r0" "rowspan c > Suc i'" using that by simp_all
      then have "(columnOf C (box_t c), colspan c, rowspan c - 1) \<in> set ?a"
        by (rule claimsOf_mem)
      moreover have "rowspan c - 1 > i'" using \<open>rowspan c > Suc i'\<close> by simp
      ultimately show ?thesis using IH by fastforce
    next
      case (Suc j')
      then have "j' < i'" "c \<in> set (buildRows C R ?a rest ! j')" "j' + rowspan c > i'"
        using that by simp_all
      then show ?thesis using IH by blast
    qed
    show ?thesis unfolding Suc using part1 part2 by blast
  qed
qed

lemma buildRow_from_raw:
  "d \<in> set (fst (buildRow C R active cells)) \<Longrightarrow> \<exists>raw \<in> set cells. box_t d = boundingBox raw"
  by (auto simp: buildRow_def Let_def toCell_def degradedCell_def split: if_splits)

lemma buildRows_nth:
  "i < length grid \<Longrightarrow> \<exists>a. buildRows C R active grid ! i = fst (buildRow C R a (grid ! i))"
proof (induction grid arbitrary: active i)
  case Nil
  then show ?case by simp
next
  case (Cons cells rest)
  show ?case
  proof (cases i)
    case 0
    then show ?thesis by auto
  next
    case (Suc i')
    then have "i' < length rest" using Cons.prems by simp
    from Cons.IH [OF this, of "snd (buildRow C R active cells)"] show ?thesis
      using Suc by simp
  qed
qed



subsection \<open>A grid without merged cells\<close>

lemma referenceRow_keep:
  "\<forall>row \<in> set rs. length row \<le> length best \<Longrightarrow>
   foldl (\<lambda>best row. if length row > length best then row else best) best rs = best"
  by (induction rs) auto

lemma referenceRow_first:
  assumes "\<forall>row \<in> set (r # rs). length row = k" and "0 < k"
  shows "referenceRow (r # rs) = r"
proof -
  have "r \<noteq> []" using assms by auto
  moreover have "\<forall>row \<in> set rs. length row \<le> length r" using assms by simp
  ultimately show ?thesis using referenceRow_keep [of rs r] by (simp add: referenceRow_def)
qed

lemma dedup_remdups_adj:
  fixes tol :: real
  assumes "0 \<le> tol" and "sorted xs"
    and "\<forall>a \<in> set xs. \<forall>b \<in> set xs. a < b \<longrightarrow> tol < b - a"
  shows "dedup tol xs = remdups_adj xs"
  using assms
proof (induction tol xs rule: dedup.induct)
  case (3 tol x y ys)
  have xy: "x \<le> y" using 3(4) by simp
  show ?case
  proof (cases "y - x \<le> tol")
    case True
    then have "x = y" using 3(5) xy by force
    moreover have "dedup tol (x # ys) = remdups_adj (x # ys)"
      using 3(1) [OF True 3(3)] 3(4,5) by simp
    ultimately show ?thesis using True by simp
  next
    case False
    then have "x \<noteq> y" using 3(3) by auto
    moreover have "dedup tol (y # ys) = remdups_adj (y # ys)"
      using 3(2) [OF False 3(3)] 3(4,5) by simp
    ultimately show ?thesis using False by simp
  qed
qed simp_all

lemma distinct_remdups_adj_sorted:
  fixes xs :: "real list"
  shows "sorted xs \<Longrightarrow> distinct (remdups_adj xs)"
proof (induction xs rule: remdups_adj.induct)
  case (3 x y xs)
  show ?case
  proof (cases "x = y")
    case True
    then show ?thesis using 3 by simp
  next
    case False
    then have "x \<notin> set (y # xs)" using 3(3) by auto
    then show ?thesis using False 3 by simp
  qed
qed simp_all

lemma gaps_pairwise:
  fixes tol :: real
  assumes "0 \<le> tol" and "sorted_wrt (\<lambda>a b. tol < b - a) ys"
    and "a \<in> set ys" and "b \<in> set ys" and "a < b"
  shows "tol < b - a"
proof -
  obtain p q where p: "p < length ys" "ys ! p = a" and q: "q < length ys" "ys ! q = b"
    using assms(3,4) by (metis in_set_conv_nth)
  have "p < q"
  proof (rule ccontr)
    assume "\<not> p < q"
    then consider "p = q" | "q < p" by linarith
    then show False
    proof cases
      case 1
      then show ?thesis using p q assms(5) by simp
    next
      case 2
      then have "tol < ys ! p - ys ! q" using sorted_wrt_nth_less [OF assms(2) _ p(1)] by simp
      then show ?thesis using p q assms(1,5) by simp
    qed
  qed
  then have "tol < ys ! q - ys ! p" using sorted_wrt_nth_less [OF assms(2) _ q(1)] by simp
  then show ?thesis using p q by simp
qed

lemma gaps_strict:
  fixes tol :: real
  assumes "0 \<le> tol" and "sorted_wrt (\<lambda>a b. tol < b - a) ys"
  shows "sorted_wrt (<) ys"
proof (rule sorted_wrt_mono_rel [OF _ assms(2)])
  fix x y :: real
  assume "tol < y - x"
  then show "x < y" using assms(1) by linarith
qed

lemma boundaries_eq:
  fixes tol :: real
  assumes "0 \<le> tol" and "sorted_wrt (\<lambda>a b. tol < b - a) ys" and "set vs = set ys"
  shows "boundaries tol vs = ys"
proof -
  have "\<forall>a \<in> set (sort vs). \<forall>b \<in> set (sort vs). a < b \<longrightarrow> tol < b - a"
    using gaps_pairwise [OF assms(1,2)] assms(3) by simp
  then have "boundaries tol vs = remdups_adj (sort vs)"
    unfolding boundaries_def using assms(1) by (intro dedup_remdups_adj) simp_all
  moreover have "sorted (remdups_adj (sort vs))" by (simp add: sorted_remdups_adj)
  moreover have "distinct (remdups_adj (sort vs))" by (simp add: distinct_remdups_adj_sorted)
  moreover have "set (remdups_adj (sort vs)) = set ys" using assms(3) by simp
  moreover have "sorted ys" "distinct ys"
    using gaps_strict [OF assms(1,2)] by (simp_all add: strict_sorted_iff)
  ultimately show ?thesis by (metis sorted_distinct_set_unique)
qed

lemma filter_eq_index: "filter (\<lambda>k. k = j) [0..<n] = (if j < n then [j] else [])"
  by (induction n) auto

lemma intervals_map: "intervals bs = map (\<lambda>k. (bs ! k, bs ! Suc k)) [0..<length bs - 1]"
  by (rule nth_equalityI) (simp_all add: intervals_nth)

lemma covers_own_interval_only:
  fixes bs :: "real list"
  assumes "sorted_wrt (<) bs" and "Suc j < length bs" and "Suc k < length bs"
  shows "covers (bs ! j) (bs ! Suc j) (bs ! k, bs ! Suc k) \<longleftrightarrow> k = j"
proof -
  have s: "sorted bs" using assms(1) by (simp add: strict_sorted_iff)
  have wj: "bs ! j < bs ! Suc j" and wk: "bs ! k < bs ! Suc k"
    using assms by (simp_all add: sorted_wrt_nth_less)
  consider "k = j" | "k < j" | "j < k" by linarith
  then show ?thesis
  proof cases
    case 1
    then show ?thesis using wj by (simp add: covers_def)
  next
    case 2
    then have "bs ! Suc k \<le> bs ! j" using s assms(2) by (simp add: sorted_nth_mono)
    then show ?thesis using 2 wj wk by (simp add: covers_def min_def max_def)
  next
    case 3
    then have "bs ! Suc j \<le> bs ! k" using s assms(3) by (simp add: sorted_nth_mono)
    then show ?thesis using 3 wj wk by (simp add: covers_def min_def max_def)
  qed
qed

lemma spanCount_own_interval:
  assumes "sorted_wrt (<) bs" and "Suc j < length bs"
  shows "spanCount (bs ! j) (bs ! Suc j) bs = 1"
proof -
  have "filter (covers (bs ! j) (bs ! Suc j)) (intervals bs)
        = map (\<lambda>k. (bs ! k, bs ! Suc k)) (filter (\<lambda>k. k = j) [0..<length bs - 1])"
    unfolding intervals_map filter_map
    by (rule arg_cong [where f = "map _"], rule filter_cong)
       (use covers_own_interval_only [OF assms] in auto)
  then show ?thesis using assms(2) by (simp add: spanCount_def filter_eq_index)
qed

lemma alignedTo_cell:
  assumes "alignedTo xs ys grid" and "i < length grid" and "j < length xs - 1"
  shows "left (boundingBox (grid ! i ! j)) = xs ! j"
    and "right (boundingBox (grid ! i ! j)) = xs ! Suc j"
    and "top_b (boundingBox (grid ! i ! j)) = ys ! i"
    and "bottom (boundingBox (grid ! i ! j)) = ys ! Suc i"
    and "width (boundingBox (grid ! i ! j)) = xs ! Suc j - xs ! j"
    and "height (boundingBox (grid ! i ! j)) = ys ! Suc i - ys ! i"
  using assms by (simp_all add: alignedTo_def right_def bottom_def)

lemma alignedTo_lengths:
  assumes "alignedTo xs ys grid"
  shows "length grid = length ys - 1" and "i < length grid \<Longrightarrow> length (grid ! i) = length xs - 1"
  using assms by (simp_all add: alignedTo_def)

lemma set_consecutive:
  fixes xs :: "real list"
  assumes "2 \<le> length xs"
  shows "(\<Union>j \<in> {..<length xs - 1}. {xs ! j, xs ! Suc j}) = set xs"
proof
  show "(\<Union>j \<in> {..<length xs - 1}. {xs ! j, xs ! Suc j}) \<subseteq> set xs"
    by (auto simp: less_diff_conv)
  show "set xs \<subseteq> (\<Union>j \<in> {..<length xs - 1}. {xs ! j, xs ! Suc j})"
  proof
    fix v assume "v \<in> set xs"
    then obtain m where m: "m < length xs" "xs ! m = v" by (metis in_set_conv_nth)
    show "v \<in> (\<Union>j \<in> {..<length xs - 1}. {xs ! j, xs ! Suc j})"
    proof (cases "m < length xs - 1")
      case True
      then show ?thesis using m by auto
    next
      case False
      then have "m = Suc (length xs - 2)" "length xs - 2 < length xs - 1" using m assms by simp_all
      then show ?thesis using m by (metis (no_types, lifting) UN_iff insertCI lessThan_iff)
    qed
  qed
qed

lemma UN_set_nth: "(\<Union>c \<in> set cells. g c) = (\<Union>j \<in> {..<length cells}. g (cells ! j))"
proof -
  have "set cells = (\<lambda>j. cells ! j) ` {..<length cells}"
    by (auto simp: in_set_conv_nth image_iff)
  then show ?thesis by simp
qed

lemma aligned_column_values:
  assumes "alignedTo xs ys grid" and "2 \<le> length xs" and "i < length grid"
  shows "set (concat (map (\<lambda>c. [left (boundingBox c), right (boundingBox c)]) (grid ! i))) = set xs"
proof -
  have k: "length (grid ! i) = length xs - 1" using alignedTo_lengths(2) [OF assms(1,3)] .
  have "set (concat (map (\<lambda>c. [left (boundingBox c), right (boundingBox c)]) (grid ! i)))
        = (\<Union>c \<in> set (grid ! i). {left (boundingBox c), right (boundingBox c)})"
    by auto
  also have "\<dots> = (\<Union>j \<in> {..<length (grid ! i)}.
                     {left (boundingBox (grid ! i ! j)), right (boundingBox (grid ! i ! j))})"
    by (rule UN_set_nth)
  also have "\<dots> = (\<Union>j \<in> {..<length xs - 1}. {xs ! j, xs ! Suc j})"
    unfolding k using alignedTo_cell(1,2) [OF assms(1,3)] by simp
  also have "\<dots> = set xs" using assms(2) by (rule set_consecutive)
  finally show ?thesis .
qed

lemma aligned_row_values:
  assumes "alignedTo xs ys grid" and "2 \<le> length xs" and "2 \<le> length ys"
  shows "set (concat (map (\<lambda>c. [top_b (boundingBox c), bottom (boundingBox c)]) (concat grid))) = set ys"
proof -
  have n: "length grid = length ys - 1" using alignedTo_lengths(1) [OF assms(1)] .
  have row: "(\<Union>c \<in> set (grid ! i). {top_b (boundingBox c), bottom (boundingBox c)}) = {ys ! i, ys ! Suc i}"
    if i: "i < length grid" for i
  proof -
    have k: "length (grid ! i) = length xs - 1" using alignedTo_lengths(2) [OF assms(1) i] .
    have "(\<Union>c \<in> set (grid ! i). {top_b (boundingBox c), bottom (boundingBox c)})
          = (\<Union>j \<in> {..<length (grid ! i)}.
               {top_b (boundingBox (grid ! i ! j)), bottom (boundingBox (grid ! i ! j))})"
      by (rule UN_set_nth)
    also have "\<dots> = (\<Union>j \<in> {..<length xs - 1}. {ys ! i, ys ! Suc i})"
      unfolding k using alignedTo_cell(3,4) [OF assms(1) i] by simp
    also have "\<dots> = {ys ! i, ys ! Suc i}"
    proof -
      have "{..<length xs - 1} \<noteq> {}" using assms(2) by (simp add: lessThan_empty_iff)
      then show ?thesis by simp
    qed
    finally show ?thesis .
  qed
  have "set (concat (map (\<lambda>c. [top_b (boundingBox c), bottom (boundingBox c)]) (concat grid)))
        = (\<Union>r \<in> set grid. \<Union>c \<in> set r. {top_b (boundingBox c), bottom (boundingBox c)})"
    by auto
  also have "\<dots> = (\<Union>i \<in> {..<length grid}.
                      \<Union>c \<in> set (grid ! i). {top_b (boundingBox c), bottom (boundingBox c)})"
    by (rule UN_set_nth)
  also have "\<dots> = (\<Union>i \<in> {..<length ys - 1}. {ys ! i, ys ! Suc i})"
    unfolding n [symmetric] using row by simp
  also have "\<dots> = set ys" using assms(3) by (rule set_consecutive)
  finally show ?thesis .
qed

lemma buildRow_plain:
  assumes "\<forall>raw \<in> set cells. colspanOf C (boundingBox raw) = 1 \<and> rowspanOf R (boundingBox raw) = 1"
    and "length cells = length C - 1"
  shows "buildRow C R [] cells = (map (toCell C R) cells, [])"
proof -
  have "map colspan (map (toCell C R) cells) = replicate (length cells) 1"
    using assms(1) by (auto simp: toCell_def map_replicate_const [symmetric] intro!: map_cong)
  then have sum: "sum_list (map colspan (map (toCell C R) cells)) = length C - 1"
    using assms(2) by (simp add: sum_list_replicate)
  have "filter (\<lambda>c. rowspan c > 1) (map (toCell C R) cells) = []"
    using assms(1) by (auto simp: filter_empty_conv toCell_def)
  then show ?thesis using sum by (simp add: buildRow_def Let_def claimsOf_def)
qed

lemma buildRows_plain:
  assumes "\<forall>cells \<in> set grid. length cells = length C - 1
             \<and> (\<forall>raw \<in> set cells. colspanOf C (boundingBox raw) = 1 \<and> rowspanOf R (boundingBox raw) = 1)"
  shows "buildRows C R [] grid = map (map (toCell C R)) grid"
  using assms by (induction grid) (simp_all add: buildRow_plain)

lemma nth_of_mem: "x \<in> set xs \<Longrightarrow> \<exists>i < length xs. xs ! i = x"
  by (simp add: in_set_conv_nth)

text \<open>
  C2. A raw grid whose rows all have the same cell count and whose cell boundaries are
  aligned (consecutive boundaries more than the tolerance apart) is reconstructed, every
  reconstructed row has as many cells as the raw row, and every cell has
  \<open>colspan = 1\<close> and \<open>rowspan = 1\<close>.
\<close>

theorem aligned_grid_has_no_spans:
  fixes tol :: real
  assumes "0 \<le> tol"
    and "2 \<le> length xs" and "2 \<le> length ys"
    and "sorted_wrt (\<lambda>a b. tol < b - a) xs" and "sorted_wrt (\<lambda>a b. tol < b - a) ys"
    and "alignedTo xs ys grid"
  shows "\<exists>t. reconstruct tol grid = Some t
             \<and> length (rows t) = length grid
             \<and> (\<forall>i < length grid.
                   length (rows t ! i) = length (grid ! i)
                   \<and> (\<forall>c \<in> set (rows t ! i). colspan c = 1 \<and> rowspan c = 1))"
proof -
  let ?C = "columnBoundaries tol grid" and ?R = "rowBoundaries tol grid"
  have n: "length grid = length ys - 1" and k: "\<And>i. i < length grid \<Longrightarrow> length (grid ! i) = length xs - 1"
    using alignedTo_lengths [OF assms(6)] by simp_all
  have sx: "sorted_wrt (<) xs" by (rule gaps_strict [OF assms(1,4)])
  have sy: "sorted_wrt (<) ys" by (rule gaps_strict [OF assms(1,5)])
  obtain r rs where grid: "grid = r # rs" using n assms(3) by (cases grid) auto
  have len: "length cells = length xs - 1" if mem: "cells \<in> set grid" for cells
  proof -
    obtain i where "i < length grid" "grid ! i = cells" using nth_of_mem [OF mem] by blast
    then show ?thesis using k [of i] by simp
  qed
  then have all_k: "\<forall>row \<in> set (r # rs). length row = length xs - 1"
    unfolding grid by blast
  have pos: "0 < length xs - 1" using assms(2) by simp
  have "referenceRow (r # rs) = r" using all_k pos by (rule referenceRow_first)
  then have "referenceRow grid = grid ! 0" unfolding grid by simp
  have ref: "referenceRow grid = grid ! 0" by fact
  have "0 < length grid" unfolding grid by simp
  from aligned_column_values [OF assms(6,2) this]
  have "set (concat (map (\<lambda>c. [left (boundingBox c), right (boundingBox c)]) (referenceRow grid))) = set xs"
    unfolding ref .
  then have C: "?C = xs"
    unfolding columnBoundaries_def by (rule boundaries_eq [OF assms(1,4)])
  have R: "?R = ys"
    unfolding rowBoundaries_def
    by (rule boundaries_eq [OF assms(1,5) aligned_row_values [OF assms(6,2,3)]])
  have cell: "colspanOf xs (boundingBox raw) = 1 \<and> rowspanOf ys (boundingBox raw) = 1
              \<and> \<not> degenerate (boundingBox raw)"
    if mem: "cells \<in> set grid" "raw \<in> set cells" for cells raw
  proof -
    obtain i where i: "i < length grid" "grid ! i = cells" using nth_of_mem [OF mem(1)] by blast
    obtain j where j: "j < length cells" "cells ! j = raw" using nth_of_mem [OF mem(2)] by blast
    have j': "j < length xs - 1" using j(1) k [OF i(1)] i(2) by simp
    have sj: "Suc j < length xs" and si: "Suc i < length ys" using j' i(1) n by simp_all
    note b = alignedTo_cell [OF assms(6) i(1) j', unfolded i(2) j(2)]
    have "colspanOf xs (boundingBox raw) = 1"
      unfolding colspanOf_def b using sx sj by (rule spanCount_own_interval)
    moreover have "rowspanOf ys (boundingBox raw) = 1"
      unfolding rowspanOf_def b using sy si by (rule spanCount_own_interval)
    moreover have "xs ! j < xs ! Suc j" "ys ! i < ys ! Suc i"
      using sx sy sj si by (simp_all add: sorted_wrt_nth_less)
    then have "\<not> degenerate (boundingBox raw)" unfolding degenerate_def b by simp
    ultimately show ?thesis by simp
  qed
  have plain: "buildRows xs ys [] grid = map (map (toCell xs ys)) grid"
  proof (rule buildRows_plain, intro ballI conjI)
    fix cells assume "cells \<in> set grid"
    then show "length cells = length xs - 1" by (rule len)
  next
    fix cells raw assume "cells \<in> set grid" "raw \<in> set cells"
    then show "colspanOf xs (boundingBox raw) = 1" "rowspanOf ys (boundingBox raw) = 1"
      using cell by blast+
  qed
  have "r \<noteq> []" using k [of 0] assms(2) grid by auto
  then obtain b bs where boxes: "map boundingBox (concat grid) = b # bs"
    unfolding grid by (cases r) auto
  have nodeg: "\<not> (\<exists>x \<in> set (b # bs). degenerate x)"
  proof
    assume "\<exists>x \<in> set (b # bs). degenerate x"
    then obtain x where "x \<in> set (map boundingBox (concat grid))" "degenerate x"
      unfolding boxes by blast
    then show False using cell by auto
  qed
  let ?t = "\<lparr>box_tb = mergeBoxes b bs, rows = map (map (toCell xs ys)) grid\<rparr>"
  have gne: "length grid \<noteq> 0" unfolding grid by simp
  have "reconstruct tol grid = Some ?t"
    using boxes nodeg assms(2) gne plain
    by (simp add: reconstruct_def Let_def C R del: set_simps)
  moreover have "\<forall>i < length grid. length (rows ?t ! i) = length (grid ! i)
                   \<and> (\<forall>c \<in> set (rows ?t ! i). colspan c = 1 \<and> rowspan c = 1)"
  proof (intro allI impI conjI ballI)
    fix i assume i: "i < length grid"
    then show "length (rows ?t ! i) = length (grid ! i)" by simp
    fix c assume "c \<in> set (rows ?t ! i)"
    then obtain raw where raw: "raw \<in> set (grid ! i)" "c = toCell xs ys raw" using i by auto
    have "grid ! i \<in> set grid" using i by simp
    from cell [OF this raw(1)] show "colspan c = 1" "rowspan c = 1"
      unfolding raw(2) by (simp_all add: toCell_def)
  qed
  ultimately show ?thesis by (intro exI [of _ ?t]) simp
qed

theorem aligned_grid_has_no_spans_witness:
  "(0::real) \<le> 1
   \<and> 2 \<le> length [0, 10, 20, 30, 40, 50, 60 :: real] \<and> 2 \<le> length [0, 10, 20, 30 :: real]
   \<and> sorted_wrt (\<lambda>a b. 1 < b - a) [0, 10, 20, 30, 40, 50, 60 :: real]
   \<and> sorted_wrt (\<lambda>a b. 1 < b - a) [0, 10, 20, 30 :: real]
   \<and> alignedTo [0, 10, 20, 30, 40, 50, 60] [0, 10, 20, 30] gridOf3by6
   \<and> map length gridOf3by6 = [6, 6, 6]
   \<and> (\<exists>t. reconstruct 1 gridOf3by6 = Some t
          \<and> map length (rows t) = [6, 6, 6]
          \<and> list_all (list_all (\<lambda>c. colspan c = 1 \<and> rowspan c = 1)) (rows t))"
proof -
  let ?xs = "[0, 10, 20, 30, 40, 50, 60 :: real]" and ?ys = "[0, 10, 20, 30 :: real]"
  have h1: "(0::real) \<le> 1" by simp
  have h2: "2 \<le> length ?xs" and h3: "2 \<le> length ?ys" by simp_all
  have h4: "sorted_wrt (\<lambda>a b. 1 < b - a) ?xs" and h5: "sorted_wrt (\<lambda>a b. 1 < b - a) ?ys"
    by simp_all
  have h6: "alignedTo ?xs ?ys gridOf3by6" by code_simp
  have len: "map length gridOf3by6 = [6, 6, 6]" by code_simp
  then have three: "length gridOf3by6 = 3" by (metis length_map list.size(3,4) One_nat_def Suc_eq_plus1 numeral_3_eq_3)
  from aligned_grid_has_no_spans [OF h1 h2 h3 h4 h5 h6]
  obtain t where t: "reconstruct 1 gridOf3by6 = Some t" "length (rows t) = length gridOf3by6"
      "\<forall>i < length gridOf3by6. length (rows t ! i) = length (gridOf3by6 ! i)
           \<and> (\<forall>c \<in> set (rows t ! i). colspan c = 1 \<and> rowspan c = 1)"
    by blast
  have "map length (rows t) = map length gridOf3by6"
    by (rule nth_equalityI) (use t(2,3) in simp_all)
  moreover have "list_all (list_all (\<lambda>c. colspan c = 1 \<and> rowspan c = 1)) (rows t)"
    unfolding list_all_length using t(2,3) by (simp add: list_all_iff)
  ultimately show ?thesis using h1 h2 h3 h4 h5 h6 len t(1) by (intro conjI exI [of _ t]) simp_all
qed


end
